theory Spec2Isabelle
  imports Main
begin

section \<open>Strings\<close>

text \<open>
  JavaScript strings are modelled as \<^typ>\<open>string\<close>, one \<^typ>\<open>char\<close> per code unit
  (code units above 255 are outside the model).
\<close>

fun startsWith :: "string \<Rightarrow> string \<Rightarrow> bool" where
  "startsWith s [] = True"
| "startsWith [] (d # t) = False"
| "startsWith (c # s) (d # t) = (c = d \<and> startsWith s t)"

text \<open>\<^verbatim>\<open>s.includes(t)\<close>: \<open>t\<close> occurs in \<open>s\<close> as a contiguous substring.\<close>

fun includesStr :: "string \<Rightarrow> string \<Rightarrow> bool" where
  "includesStr [] t = (t = [])"
| "includesStr (c # s) t = (startsWith (c # s) t \<or> includesStr s t)"

text \<open>
  \<^verbatim>\<open>toLowerCase\<close> on the code units below 256: the letters A to Z, and the capital
  letters of Latin-1 (192 to 222 without the multiplication sign 215).
\<close>

definition lowerChar :: "char \<Rightarrow> char" where
  "lowerChar c =
     (let n = (of_char c :: nat)
      in if (65 \<le> n \<and> n \<le> 90) \<or> (192 \<le> n \<and> n \<le> 222 \<and> n \<noteq> 215)
         then char_of (n + 32) else c)"

definition toLowerCase :: "string \<Rightarrow> string" where
  "toLowerCase s = map lowerChar s"

text \<open>White space removed by \<^verbatim>\<open>trim()\<close>: TAB, LF, VT, FF, CR, SP, NBSP.\<close>

definition isWhiteSpace :: "char \<Rightarrow> bool" where
  "isWhiteSpace c = ((of_char c :: nat) \<in> {9, 10, 11, 12, 13, 32, 160})"

definition trim :: "string \<Rightarrow> string" where
  "trim s = rev (dropWhile isWhiteSpace (rev (dropWhile isWhiteSpace s)))"

text \<open>The characters that \<^verbatim>\<open>.\<close> of a regular expression does not match.\<close>

definition isLineTerminator :: "char \<Rightarrow> bool" where
  "isLineTerminator c = ((of_char c :: nat) \<in> {10, 13})"

text \<open>
  The group \<^verbatim>\<open>(.+?)\<close> followed by a one-position test \<open>stop\<close> on the rest of the
  input: the shortest non-empty run of non-terminator characters after which \<open>stop\<close>
  holds. \<open>acc\<close> is what the group has consumed so far.
\<close>

fun lazyGroup :: "(string \<Rightarrow> bool) \<Rightarrow> string \<Rightarrow> string \<Rightarrow> string option" where
  "lazyGroup stop acc [] = (if acc \<noteq> [] \<and> stop [] then Some acc else None)"
| "lazyGroup stop acc (c # cs) =
     (if acc \<noteq> [] \<and> stop (c # cs) then Some acc
      else if isLineTerminator c then None
      else lazyGroup stop (acc @ [c]) cs)"

text \<open>
  \<^verbatim>\<open>s.match(/lit(.+?)stop/)\<close> for a non-empty literal \<open>lit\<close>: group 1 of the leftmost
  match, or \<open>None\<close> when the expression does not match.
\<close>

fun matchGroup :: "string \<Rightarrow> (string \<Rightarrow> bool) \<Rightarrow> string \<Rightarrow> string option" where
  "matchGroup lit stop [] = None"
| "matchGroup lit stop (c # cs) =
     (if startsWith (c # cs) lit
      then (case lazyGroup stop [] (drop (length lit) (c # cs)) of
              Some g \<Rightarrow> Some g
            | None \<Rightarrow> matchGroup lit stop cs)
      else matchGroup lit stop cs)"

text \<open>\<^verbatim>\<open>(?:\[|$)\<close>: an opening bracket, or the end of the input.\<close>

definition bracketOrEnd :: "string \<Rightarrow> bool" where
  "bracketOrEnd r = (case r of [] \<Rightarrow> True | c # _ \<Rightarrow> c = CHR ''['')"

definition closingAngle :: "string \<Rightarrow> bool" where
  "closingAngle r = (case r of [] \<Rightarrow> False | c # _ \<Rightarrow> c = CHR ''>'')"

text \<open>\<^verbatim>\<open>x || null\<close> on an optional string: the empty string is falsy.\<close>

definition orNull :: "string option \<Rightarrow> string option" where
  "orNull x = (case x of None \<Rightarrow> None | Some s \<Rightarrow> (if s = [] then None else Some s))"

text \<open>\<^verbatim>\<open>x || d\<close> on an optional string with a string default.\<close>

definition orElse :: "string option \<Rightarrow> string \<Rightarrow> string" where
  "orElse x d = (case x of None \<Rightarrow> d | Some s \<Rightarrow> (if s = [] then d else s))"

datatype Error = Error (message: string)

section \<open>Classification of notification mails (cron-gmail-poller.ts, categorizeEmail)\<close>

datatype EmailType = NEW_INQUIRY | REPLY | UNKNOWN

record Category =
  cat_type :: EmailType
  cat_tenantName :: "string option"
  cat_tenantEmail :: "string option"

definition categorizeEmail :: "string \<Rightarrow> string \<Rightarrow> Category" where
  "categorizeEmail subject sender =
     (let (type, tenantName) =
        (if includesStr subject ''Booking Inquiry from'' then
           (NEW_INQUIRY,
            map_option trim (matchGroup ''Booking Inquiry from '' bracketOrEnd subject))
         else if includesStr subject ''Property Owner Message'' then
           (NEW_INQUIRY,
            map_option trim (matchGroup ''Property Owner Message from '' bracketOrEnd subject))
         else if includesStr subject ''New reply from'' \<or> includesStr subject ''reply from''
                 \<or> includesStr subject ''Re:'' then
           (REPLY, None)
         else (UNKNOWN, None));
        tenantEmail = matchGroup ''<'' closingAngle sender
      in \<lparr>cat_type = type, cat_tenantName = tenantName, cat_tenantEmail = tenantEmail\<rparr>)"

section \<open>The in-memory queue (message-queue.ts)\<close>

text \<open>
  \<open>addedAt\<close> is a reading of the wall clock that the queue never reads back; it is left
  out of the record.
\<close>

record QueuedMessage =
  gmailMessageId :: string
  tenantName :: string
  tenantEmail :: "string option"
  tenantMessage :: string
  retryCount :: nat

record MessageQueue =
  queue :: "QueuedMessage list"
  processing :: bool
  maxRetries :: int

text \<open>What \<^verbatim>\<open>this.emit\<close> hands to the listeners, in the order of emission.\<close>

datatype event =
    EmitMessageAdded QueuedMessage
  | EmitProcessMessage QueuedMessage
  | EmitMessageCompleted QueuedMessage
  | EmitMessageFailed QueuedMessage Error

definition newMessageQueue :: "int \<Rightarrow> MessageQueue" where
  "newMessageQueue n = \<lparr>queue = [], processing = False, maxRetries = n\<rparr>"

fun findIndex :: "('a \<Rightarrow> bool) \<Rightarrow> 'a list \<Rightarrow> nat option" where
  "findIndex P [] = None"
| "findIndex P (x # xs) = (if P x then Some 0 else map_option Suc (findIndex P xs))"

text \<open>\<^verbatim>\<open>xs.splice(i, 1)\<close>, the list that remains.\<close>

definition splice1 :: "nat \<Rightarrow> 'a list \<Rightarrow> 'a list" where
  "splice1 i xs = take i xs @ drop (Suc i) xs"

text \<open>
  The listener of \<^verbatim>\<open>processMessage\<close> starts an asynchronous function and returns, so
  \<^verbatim>\<open>emit\<close> does not throw and the \<^verbatim>\<open>catch\<close> of \<^verbatim>\<open>processNext\<close> is not entered.
\<close>

definition processNext :: "MessageQueue \<Rightarrow> MessageQueue \<times> event list" where
  "processNext q =
     (case queue q of
        [] \<Rightarrow> (q\<lparr>processing := False\<rparr>, [])
      | m # _ \<Rightarrow> (q\<lparr>processing := True\<rparr>, [EmitProcessMessage m]))"

text \<open>
  \<^verbatim>\<open>enqueue\<close> copies the fields of its argument and sets \<open>retryCount\<close> to 0, whatever the
  argument carried there.
\<close>

definition enqueue :: "MessageQueue \<Rightarrow> QueuedMessage \<Rightarrow> MessageQueue \<times> event list" where
  "enqueue q m =
     (let queuedMessage = m\<lparr>retryCount := 0\<rparr>;
          q1 = q\<lparr>queue := queue q @ [queuedMessage]\<rparr>
      in if \<not> processing q1
         then (let (q2, evs) = processNext q1 in (q2, EmitMessageAdded queuedMessage # evs))
         else (q1, [EmitMessageAdded queuedMessage]))"

definition messageProcessed :: "MessageQueue \<Rightarrow> string \<Rightarrow> MessageQueue \<times> event list" where
  "messageProcessed q i =
     (case findIndex (\<lambda>m. gmailMessageId m = i) (queue q) of
        None \<Rightarrow> (q, [])
      | Some index \<Rightarrow>
          (let msg = queue q ! index;
               q1 = q\<lparr>queue := splice1 index (queue q)\<rparr>;
               (q2, evs) = processNext q1
           in (q2, EmitMessageCompleted msg # evs)))"

definition messageFailed :: "MessageQueue \<Rightarrow> string \<Rightarrow> Error \<Rightarrow> MessageQueue \<times> event list" where
  "messageFailed q i err =
     (case findIndex (\<lambda>m. gmailMessageId m = i) (queue q) of
        None \<Rightarrow> (q, [])
      | Some index \<Rightarrow>
          (let msg = (queue q ! index)\<lparr>retryCount := Suc (retryCount (queue q ! index))\<rparr>
           in if int (retryCount msg) \<ge> maxRetries q
              then (let q1 = q\<lparr>queue := splice1 index (queue q)\<rparr>;
                        (q2, evs) = processNext q1
                    in (q2, EmitMessageFailed msg err # evs))
              else (let q1 = q\<lparr>queue := splice1 index (queue q) @ [msg]\<rparr>
                    in processNext q1)))"

definition isInQueue :: "MessageQueue \<Rightarrow> string \<Rightarrow> bool" where
  "isInQueue q i = list_ex (\<lambda>m. gmailMessageId m = i) (queue q)"

section \<open>Calls on the queue and the items handed to the orchestrator\<close>

datatype queueCall =
    CallEnqueue QueuedMessage
  | CallProcessed string
  | CallFailed string Error

fun applyCall :: "MessageQueue \<Rightarrow> queueCall \<Rightarrow> MessageQueue \<times> event list" where
  "applyCall q (CallEnqueue m) = enqueue q m"
| "applyCall q (CallProcessed i) = messageProcessed q i"
| "applyCall q (CallFailed i err) = messageFailed q i err"

text \<open>A sequence of calls, with everything emitted on the way.\<close>

fun applyCalls :: "MessageQueue \<Rightarrow> queueCall list \<Rightarrow> MessageQueue \<times> event list" where
  "applyCalls q [] = (q, [])"
| "applyCalls q (c # cs) =
     (let (q1, evs1) = applyCall q c; (q2, evs2) = applyCalls q1 cs in (q2, evs1 @ evs2))"

fun isTerminalFailure :: "event \<Rightarrow> bool" where
  "isTerminalFailure (EmitMessageFailed m err) = True"
| "isTerminalFailure ev = False"

text \<open>The items that a list of events hands over through \<^verbatim>\<open>processMessage\<close>.\<close>

fun dispatched :: "event list \<Rightarrow> QueuedMessage list" where
  "dispatched [] = []"
| "dispatched (EmitProcessMessage m # evs) = m # dispatched evs"
| "dispatched (ev # evs) = dispatched evs"

text \<open>
  The items handed over and still awaiting \<^verbatim>\<open>messageProcessed\<close> or
  \<^verbatim>\<open>messageFailed\<close>: such a call answers the items of its id.
\<close>

fun answered :: "queueCall \<Rightarrow> QueuedMessage list \<Rightarrow> QueuedMessage list" where
  "answered (CallEnqueue m) out = out"
| "answered (CallProcessed i) out = filter (\<lambda>m. gmailMessageId m \<noteq> i) out"
| "answered (CallFailed i err) out = filter (\<lambda>m. gmailMessageId m \<noteq> i) out"

text \<open>
  The orchestrator's discipline: completion and failure are signalled only for an item
  that was handed over and not answered yet.
\<close>

fun permitted :: "QueuedMessage list \<Rightarrow> queueCall \<Rightarrow> bool" where
  "permitted out (CallEnqueue m) = True"
| "permitted out (CallProcessed i) = list_ex (\<lambda>m. gmailMessageId m = i) out"
| "permitted out (CallFailed i err) = list_ex (\<lambda>m. gmailMessageId m = i) out"

fun runCalls :: "MessageQueue \<times> QueuedMessage list \<Rightarrow> queueCall list
    \<Rightarrow> (MessageQueue \<times> QueuedMessage list) option" where
  "runCalls (q, out) [] = Some (q, out)"
| "runCalls (q, out) (c # cs) =
     (if permitted out c
      then (let (q1, evs) = applyCall q c
            in runCalls (q1, answered c out @ dispatched evs) cs)
      else None)"

section \<open>The store (database.ts)\<close>

datatype Status = Pending | Processing | Sent | Failed

text \<open>
  A row of the table \<^verbatim>\<open>messages\<close>. The columns \<^verbatim>\<open>created_at\<close> and
  \<^verbatim>\<open>processed_at\<close> hold readings of the clock that the program never reads back;
  they are left out.
\<close>

record Message =
  row_id :: nat
  gmail_message_id :: string
  tenant_name :: string
  tenant_email :: "string option"
  tenant_message :: string
  our_response :: "string option"
  status :: Status
  error :: "string option"
  ff_conversation_url :: "string option"

text \<open>
  The table with the last value of its \<^verbatim>\<open>AUTOINCREMENT\<close> key. The field \<^verbatim>\<open>db\<close> of
  \<^verbatim>\<open>MessageDatabase\<close> is \<^verbatim>\<open>null\<close> until the asynchronous initialisation has run, and
  after \<^verbatim>\<open>close\<close>.
\<close>

record Table =
  rows :: "Message list"
  last_rowid :: nat

type_synonym MessageDatabase = "Table option"

definition emptyTable :: Table where
  "emptyTable = \<lparr>rows = [], last_rowid = 0\<rparr>"

definition rowsOf :: "MessageDatabase \<Rightarrow> Message list" where
  "rowsOf d = (case d of None \<Rightarrow> [] | Some t \<Rightarrow> rows t)"

text \<open>
  \<^verbatim>\<open>INSERT\<close> into a table whose column \<^verbatim>\<open>gmail_message_id\<close> is declared
  \<^verbatim>\<open>UNIQUE\<close>: the statement fails, and \<^verbatim>\<open>db.run\<close> throws, when a row with that
  value exists. The columns not named by the statement are \<^verbatim>\<open>NULL\<close>.
\<close>

definition insertMessage :: "MessageDatabase \<Rightarrow> Message \<Rightarrow> Error + (MessageDatabase \<times> nat)" where
  "insertMessage d msg =
     (case d of
        None \<Rightarrow> Inl (Error ''Database not initialized'')
      | Some t \<Rightarrow>
          if list_ex (\<lambda>r. gmail_message_id r = gmail_message_id msg) (rows t)
          then Inl (Error ''UNIQUE constraint failed: messages.gmail_message_id'')
          else (let i = Suc (last_rowid t);
                    row = \<lparr>row_id = i,
                           gmail_message_id = gmail_message_id msg,
                           tenant_name = tenant_name msg,
                           tenant_email = orNull (tenant_email msg),
                           tenant_message = tenant_message msg,
                           our_response = None,
                           status = status msg,
                           error = None,
                           ff_conversation_url = orNull (ff_conversation_url msg)\<rparr>
                in Inr (Some \<lparr>rows = rows t @ [row], last_rowid = i\<rparr>, i)))"

definition messageExists :: "MessageDatabase \<Rightarrow> string \<Rightarrow> bool" where
  "messageExists d i =
     (case d of
        None \<Rightarrow> False
      | Some t \<Rightarrow> length (filter (\<lambda>r. gmail_message_id r = i) (rows t)) > 0)"

definition updateStatus :: "MessageDatabase \<Rightarrow> string \<Rightarrow> Status \<Rightarrow> string option \<Rightarrow> MessageDatabase" where
  "updateStatus d i st err =
     (case d of
        None \<Rightarrow> None
      | Some t \<Rightarrow>
          Some (t\<lparr>rows := map (\<lambda>r. if gmail_message_id r = i
                                   then r\<lparr>status := st, error := orNull err\<rparr> else r) (rows t)\<rparr>))"

definition updateResponse :: "MessageDatabase \<Rightarrow> string \<Rightarrow> string \<Rightarrow> MessageDatabase" where
  "updateResponse d i response =
     (case d of
        None \<Rightarrow> None
      | Some t \<Rightarrow>
          Some (t\<lparr>rows := map (\<lambda>r. if gmail_message_id r = i
                                   then r\<lparr>our_response := Some response\<rparr> else r) (rows t)\<rparr>))"

definition getMessageByGmailId :: "MessageDatabase \<Rightarrow> string \<Rightarrow> Message option" where
  "getMessageByGmailId d i = find (\<lambda>r. gmail_message_id r = i) (rowsOf d)"

text \<open>
  A sequence of \<^verbatim>\<open>insertMessage\<close> calls; a call that throws leaves the store as it
  was, and the next call is made on it.
\<close>

fun insertAll :: "MessageDatabase \<Rightarrow> Message list \<Rightarrow> MessageDatabase" where
  "insertAll d [] = d"
| "insertAll d (msg # msgs) =
     (case insertMessage d msg of
        Inl err \<Rightarrow> insertAll d msgs
      | Inr (d1, i) \<Rightarrow> insertAll d1 msgs)"

section \<open>The system: store, queue, collaborators\<close>

text \<open>The switches of \<^verbatim>\<open>SAFETY_CONFIG\<close> (config.ts) that the pipeline reads.\<close>

record Config =
  TEST_MODE :: bool
  TEST_SENDER_NAME :: string
  AUTO_SEND_ENABLED :: bool

definition SAFETY_CONFIG :: Config where
  "SAFETY_CONFIG = \<lparr>TEST_MODE = True, TEST_SENDER_NAME = ''Patrick M'', AUTO_SEND_ENABLED = False\<rparr>"

text \<open>What \<^verbatim>\<open>playwrightResponder.extractLatestMessage\<close> resolves to.\<close>

record ExtractedData =
  ex_tenantName :: string
  ex_tenantMessage :: string
  conversationUrl :: string

text \<open>
  The calls that the poller and the orchestrator make on the store, the queue, the
  browser, the generation service and the notifiers, in the order in which they are made.
\<close>

datatype effect =
    DbInsertMessage string
  | DbUpdateStatus string Status "string option"
  | DbUpdateResponse string string
  | QueueEnqueue string
  | QueueMessageProcessed string
  | QueueMessageFailed string Error
  | ExtractLatestMessage
  | GenerateResponse string string "string option"
  | SendResponse string
  | CloseBrowser
  | SendResponseForApproval string string string string
  | SendSuccessNotification string string
  | NotifyMessageMismatch string string
  | NotifyLLMError Error string
  | NotifyAuthExpired
  | NotifyPlaywrightError Error string
  | NotifySystemError Error string

text \<open>
  The state of the process: the two singletons, the invocations of \<^verbatim>\<open>processMessage\<close>
  that are suspended at their first \<^verbatim>\<open>await\<close>, the calls made so far, and a record of
  every change of status written to a row (identifier, status before, status after).
\<close>

record System =
  db :: MessageDatabase
  messageQueue :: MessageQueue
  suspended :: "QueuedMessage list"
  effects :: "effect list"
  transitions :: "(string \<times> Status \<times> Status) list"

definition startSystem :: "MessageDatabase \<Rightarrow> int \<Rightarrow> System" where
  "startSystem d n =
     \<lparr>db = d, messageQueue = newMessageQueue n, suspended = [], effects = [], transitions = []\<rparr>"

definition call :: "effect \<Rightarrow> System \<Rightarrow> System" where
  "call e s = s\<lparr>effects := effects s @ [e]\<rparr>"

definition dbUpdateStatus :: "string \<Rightarrow> Status \<Rightarrow> string option \<Rightarrow> System \<Rightarrow> System" where
  "dbUpdateStatus i st err s =
     s\<lparr>db := updateStatus (db s) i st err,
       effects := effects s @ [DbUpdateStatus i st err],
       transitions := transitions s @
         map (\<lambda>r. (i, status r, st)) (filter (\<lambda>r. gmail_message_id r = i) (rowsOf (db s)))\<rparr>"

definition dbUpdateResponse :: "string \<Rightarrow> string \<Rightarrow> System \<Rightarrow> System" where
  "dbUpdateResponse i response s =
     s\<lparr>db := updateResponse (db s) i response,
       effects := effects s @ [DbUpdateResponse i response]\<rparr>"

section \<open>The orchestrator (server: processMessage and the listeners of initialize)\<close>

text \<open>
  \<^verbatim>\<open>processMessage\<close> up to its first \<^verbatim>\<open>await\<close>: the status is set and
  \<^verbatim>\<open>extractLatestMessage\<close> is called; the invocation is then suspended.
\<close>

definition processMessageStart :: "System \<Rightarrow> QueuedMessage \<Rightarrow> System" where
  "processMessageStart s m =
     (let s1 = dbUpdateStatus (gmailMessageId m) Processing None s;
          s2 = call ExtractLatestMessage s1
      in s2\<lparr>suspended := suspended s2 @ [m]\<rparr>)"

text \<open>The listeners that \<^verbatim>\<open>initialize\<close> connects to the queue.\<close>

fun listener :: "System \<Rightarrow> event \<Rightarrow> System" where
  "listener s (EmitProcessMessage m) = processMessageStart s m"
| "listener s (EmitMessageFailed m err) =
     call (NotifySystemError err (''Max retries exceeded for message from '' @ tenantName m)) s"
| "listener s (EmitMessageCompleted m) = s"
| "listener s (EmitMessageAdded m) = s"

definition emitAll :: "System \<Rightarrow> event list \<Rightarrow> System" where
  "emitAll s evs = foldl listener s evs"

definition queueEnqueue :: "QueuedMessage \<Rightarrow> System \<Rightarrow> System" where
  "queueEnqueue m s =
     (let (q, evs) = enqueue (messageQueue s) m
      in emitAll (s\<lparr>messageQueue := q, effects := effects s @ [QueueEnqueue (gmailMessageId m)]\<rparr>) evs)"

definition queueMessageProcessed :: "string \<Rightarrow> System \<Rightarrow> System" where
  "queueMessageProcessed i s =
     (let (q, evs) = messageProcessed (messageQueue s) i
      in emitAll (s\<lparr>messageQueue := q, effects := effects s @ [QueueMessageProcessed i]\<rparr>) evs)"

definition queueMessageFailed :: "string \<Rightarrow> Error \<Rightarrow> System \<Rightarrow> System" where
  "queueMessageFailed i err s =
     (let (q, evs) = messageFailed (messageQueue s) i err
      in emitAll (s\<lparr>messageQueue := q, effects := effects s @ [QueueMessageFailed i err]\<rparr>) evs)"

text \<open>
  What the collaborators answer to one invocation of \<^verbatim>\<open>processMessage\<close>: the result
  of \<^verbatim>\<open>extractLatestMessage\<close>, of \<^verbatim>\<open>generateResponse\<close>, of \<^verbatim>\<open>sendResponse\<close> and of
  \<^verbatim>\<open>closeBrowser\<close> in the \<^verbatim>\<open>try\<close> block (\<open>Some err\<close>: the call throws; the
  \<^verbatim>\<open>closeBrowser\<close> of \<^verbatim>\<open>PlaywrightResponder\<close> awaits \<^verbatim>\<open>browser.close()\<close>, which can
  fail). The notifiers catch their own errors, and \<^verbatim>\<open>sendResponseForApproval\<close> only
  writes to the console.
\<close>

record Outcome =
  extractLatestMessage :: "Error + ExtractedData"
  generateResponse :: "Error + string"
  sendResponse :: "Error option"
  closeBrowser :: "Error option"

text \<open>The notification that the \<^verbatim>\<open>catch\<close> block chooses from the error's message.\<close>

definition errorNotification :: "Error \<Rightarrow> QueuedMessage \<Rightarrow> effect" where
  "errorNotification err m =
     (if includesStr (message err) ''LLM'' then NotifyLLMError err (tenantName m)
      else if includesStr (message err) ''auth'' \<or> includesStr (message err) ''login''
      then NotifyAuthExpired
      else NotifyPlaywrightError err (gmailMessageId m))"

text \<open>
  The \<^verbatim>\<open>catch\<close> block of \<^verbatim>\<open>processMessage\<close>; an error of \<^verbatim>\<open>closeBrowser\<close> is
  swallowed there. The result is the error thrown again.
\<close>

definition catchBlock :: "System \<Rightarrow> QueuedMessage \<Rightarrow> Error \<Rightarrow> System \<times> Error option" where
  "catchBlock s m err =
     (let s1 = call CloseBrowser s;
          s2 = dbUpdateStatus (gmailMessageId m) Failed (Some (message err)) s1;
          s3 = call (errorNotification err m) s2;
          s4 = queueMessageFailed (gmailMessageId m) err s3
      in (s4, Some err))"

text \<open>
  \<^verbatim>\<open>processMessage\<close> from the point where \<^verbatim>\<open>extractLatestMessage\<close> settles. The result
  is \<open>None\<close> when the promise resolves and \<open>Some err\<close> when it rejects.
\<close>

definition processMessageResume ::
    "Config \<Rightarrow> System \<Rightarrow> QueuedMessage \<Rightarrow> Outcome \<Rightarrow> System \<times> Error option" where
  "processMessageResume cfg s m out =
     (case extractLatestMessage out of
        Inl err \<Rightarrow> catchBlock s m err
      | Inr extractedData \<Rightarrow>
          (let nameMatch =
                 (includesStr (toLowerCase (ex_tenantName extractedData)) (toLowerCase (tenantName m))
                  \<or> includesStr (toLowerCase (tenantName m)) (toLowerCase (ex_tenantName extractedData)));
               s1 = (if \<not> nameMatch
                     then call (NotifyMessageMismatch (gmailMessageId m) (tenantName m)) s
                     else s);
               s2 = dbUpdateResponse (gmailMessageId m) (ex_tenantMessage extractedData) s1;
               s3 = call (GenerateResponse (ex_tenantName extractedData)
                            (ex_tenantMessage extractedData) (tenantEmail m)) s2
           in case generateResponse out of
                Inl err \<Rightarrow> catchBlock s3 m err
              | Inr llmResponse \<Rightarrow>
                  (let s4 = dbUpdateResponse (gmailMessageId m) llmResponse s3
                   in if AUTO_SEND_ENABLED cfg
                      then (let s5 = call (SendResponse llmResponse) s4
                            in case sendResponse out of
                                 Some err \<Rightarrow> catchBlock s5 m err
                               | None \<Rightarrow>
                                   (let s6 = call CloseBrowser s5
                                    in case closeBrowser out of
                                         Some err \<Rightarrow> catchBlock s6 m err
                                       | None \<Rightarrow>
                                           (let s7 = dbUpdateStatus (gmailMessageId m) Sent None s6;
                                                s8 = call (SendSuccessNotification
                                                       (ex_tenantName extractedData) llmResponse) s7;
                                                s9 = queueMessageProcessed (gmailMessageId m) s8
                                            in (s9, None))))
                      else (let s5 = call (SendResponseForApproval
                                       (ex_tenantName extractedData)
                                       (ex_tenantMessage extractedData)
                                       llmResponse
                                       (conversationUrl extractedData)) s4;
                                s6 = call CloseBrowser s5
                            in case closeBrowser out of
                                 Some err \<Rightarrow> catchBlock s6 m err
                               | None \<Rightarrow>
                                   (let s7 = dbUpdateStatus (gmailMessageId m) Pending None s6;
                                        s8 = queueMessageProcessed (gmailMessageId m) s7
                                    in (s8, None))))))"

section \<open>The poller (cron-gmail-poller.ts, checkGmail)\<close>

text \<open>
  A message of the listing, with what \<^verbatim>\<open>gmail.users.messages.get\<close> answers for it:
  an error, or the headers as pairs of name and value.
\<close>

record GmailMessage =
  gm_id :: string
  gm_get :: "Error + (string \<times> string option) list"

definition headerValue :: "(string \<times> string option) list \<Rightarrow> string \<Rightarrow> string option" where
  "headerValue headers n =
     (case find (\<lambda>h. fst h = n) headers of None \<Rightarrow> None | Some h \<Rightarrow> snd h)"

text \<open>The call of \<^verbatim>\<open>db.insertMessage\<close>; the second component is the error it throws.\<close>

definition dbInsertMessage :: "Message \<Rightarrow> System \<Rightarrow> System \<times> Error option" where
  "dbInsertMessage msg s =
     (let s1 = call (DbInsertMessage (gmail_message_id msg)) s
      in case insertMessage (db s) msg of
           Inl err \<Rightarrow> (s1, Some err)
         | Inr (d, i) \<Rightarrow> (s1\<lparr>db := d\<rparr>, None))"

text \<open>
  The body of the loop over the listing. The second component is \<open>Some err\<close> when the
  body throws, which ends the loop.
\<close>

definition pollMessage :: "Config \<Rightarrow> System \<Rightarrow> GmailMessage \<Rightarrow> System \<times> Error option" where
  "pollMessage cfg s g =
     (let gmailMessageId = gm_id g
      in if messageExists (db s) gmailMessageId then (s, None)
         else if isInQueue (messageQueue s) gmailMessageId then (s, None)
         else (case gm_get g of
                 Inl err \<Rightarrow> (s, Some err)
               | Inr headers \<Rightarrow>
                   (let subject = orElse (headerValue headers ''Subject'') ''(no subject)'';
                        sender = orElse (headerValue headers ''From'') ''(unknown sender)'';
                        c = categorizeEmail subject sender
                    in if cat_type c \<noteq> NEW_INQUIRY then (s, None)
                       else if TEST_MODE cfg \<and>
                               \<not> includesStr (orElse (cat_tenantName c) ''Unknown'')
                                    (TEST_SENDER_NAME cfg)
                       then (s, None)
                       else (case dbInsertMessage
                                     \<lparr>row_id = 0,
                                      gmail_message_id = gmailMessageId,
                                      tenant_name = orElse (cat_tenantName c) ''Unknown Tenant'',
                                      tenant_email = cat_tenantEmail c,
                                      tenant_message = subject,
                                      our_response = None,
                                      status = Pending,
                                      error = None,
                                      ff_conversation_url = None\<rparr> s of
                               (s1, Some err) \<Rightarrow> (s1, Some err)
                             | (s1, None) \<Rightarrow>
                                 (queueEnqueue
                                    \<lparr>gmailMessageId = gmailMessageId,
                                     tenantName = orElse (cat_tenantName c) ''Unknown Tenant'',
                                     tenantEmail = cat_tenantEmail c,
                                     tenantMessage = subject,
                                     retryCount = 0\<rparr> s1, None)))))"

fun pollMessages :: "Config \<Rightarrow> System \<Rightarrow> GmailMessage list \<Rightarrow> System \<times> Error option" where
  "pollMessages cfg s [] = (s, None)"
| "pollMessages cfg s (g # gs) =
     (case pollMessage cfg s g of
        (s1, Some err) \<Rightarrow> (s1, Some err)
      | (s1, None) \<Rightarrow> pollMessages cfg s1 gs)"

text \<open>
  One tick of the poller, given what \<^verbatim>\<open>gmail.users.messages.list\<close> answers: an error,
  or the listing.
\<close>

definition checkGmail :: "Config \<Rightarrow> System \<Rightarrow> Error + GmailMessage list \<Rightarrow> System" where
  "checkGmail cfg s listing =
     (case listing of
        Inl err \<Rightarrow> call (NotifySystemError err ''Failed to check Gmail for new messages'') s
      | Inr messages \<Rightarrow>
          (if messages = [] then s
           else (case pollMessages cfg s messages of
                   (s1, Some err) \<Rightarrow>
                     call (NotifySystemError err ''Failed to check Gmail for new messages'') s1
                 | (s1, None) \<Rightarrow> s1)))"

section \<open>Runs of the system\<close>

text \<open>
  The process advances by a tick of the poller or by the suspended invocation of
  \<^verbatim>\<open>processMessage\<close> at a given position running to its end with a given outcome.
  Each of the two is one step: the points at which they wait for the mail source or for a
  collaborator are not points at which the other one runs. What the mail source and the
  collaborators answer is part of the step.
\<close>

datatype step =
    Tick "Error + GmailMessage list"
  | Resume nat Outcome

fun sysStep :: "Config \<Rightarrow> System \<Rightarrow> step \<Rightarrow> System" where
  "sysStep cfg s (Tick listing) = checkGmail cfg s listing"
| "sysStep cfg s (Resume k out) =
     (if k < length (suspended s)
      then fst (processMessageResume cfg (s\<lparr>suspended := splice1 k (suspended s)\<rparr>)
                  (suspended s ! k) out)
      else s)"

definition sysRun :: "Config \<Rightarrow> System \<Rightarrow> step list \<Rightarrow> System" where
  "sysRun cfg s steps = foldl (sysStep cfg) s steps"

section \<open>Invariants of the queue\<close>

text \<open>A queued item has never failed, or has failed fewer times than the bound.\<close>

definition retryBounded :: "MessageQueue \<Rightarrow> bool" where
  "retryBounded q = (\<forall>m\<in>set (queue q). retryCount m = 0 \<or> int (retryCount m) < maxRetries q)"

text \<open>
  The queue is idle and empty, or it is draining and exactly its head is with the
  orchestrator.
\<close>

definition oneInFlight :: "MessageQueue \<times> QueuedMessage list \<Rightarrow> bool" where
  "oneInFlight st =
     (case st of (q, out) \<Rightarrow>
        (case queue q of
           [] \<Rightarrow> \<not> processing q \<and> out = []
         | m # ms \<Rightarrow> processing q \<and> out = [m]))"

text \<open>The inquiry of the scenarios.\<close>

definition m1 :: QueuedMessage where
  "m1 = \<lparr>gmailMessageId = ''m1'', tenantName = ''Nancy E'', tenantEmail = None,
        tenantMessage = ''Booking Inquiry from Nancy E'', retryCount = 0\<rparr>"

definition m2 :: QueuedMessage where
  "m2 = \<lparr>gmailMessageId = ''m2'', tenantName = ''Bo P'', tenantEmail = None,
        tenantMessage = ''Booking Inquiry from Bo P'', retryCount = 0\<rparr>"

text \<open>The calls that the listeners make when an event is emitted.\<close>

fun listenerEffects :: "event \<Rightarrow> effect list" where
  "listenerEffects (EmitProcessMessage m) =
     [DbUpdateStatus (gmailMessageId m) Processing None, ExtractLatestMessage]"
| "listenerEffects (EmitMessageFailed m err) =
     [NotifySystemError err (''Max retries exceeded for message from '' @ tenantName m)]"
| "listenerEffects (EmitMessageCompleted m) = []"
| "listenerEffects (EmitMessageAdded m) = []"

fun isQueueFailure :: "effect \<Rightarrow> bool" where
  "isQueueFailure (QueueMessageFailed i err) = True"
| "isQueueFailure e = False"

fun isSystemError :: "effect \<Rightarrow> bool" where
  "isSystemError (NotifySystemError err c) = True"
| "isSystemError e = False"

fun isApproval :: "effect \<Rightarrow> bool" where
  "isApproval (SendResponseForApproval n t r u) = True"
| "isApproval e = False"

text \<open>
  The store after the invocations of \<^verbatim>\<open>processMessage\<close> that a list of handed-over
  items starts, and the changes of status that these invocations write.
\<close>

fun dispatchDb :: "MessageDatabase \<Rightarrow> QueuedMessage list \<Rightarrow> MessageDatabase" where
  "dispatchDb d [] = d"
| "dispatchDb d (m # ms) = dispatchDb (updateStatus d (gmailMessageId m) Processing None) ms"

fun dispatchTransitions :: "MessageDatabase \<Rightarrow> QueuedMessage list \<Rightarrow> (string \<times> Status \<times> Status) list" where
  "dispatchTransitions d [] = []"
| "dispatchTransitions d (m # ms) =
     map (\<lambda>r. (gmailMessageId m, status r, Processing))
       (filter (\<lambda>r. gmail_message_id r = gmailMessageId m) (rowsOf d))
     @ dispatchTransitions (updateStatus d (gmailMessageId m) Processing None) ms"

text \<open>
  \<open>sk\<close> differs from \<open>s\<close> only by calls made in between and by the column
  \<^verbatim>\<open>our_response\<close>.
\<close>

definition responsesOnly :: "System \<Rightarrow> System \<Rightarrow> effect list \<Rightarrow> bool" where
  "responsesOnly s sk pre =
     (messageQueue sk = messageQueue s \<and> suspended sk = suspended s
      \<and> transitions sk = transitions s \<and> effects sk = effects s @ pre
      \<and> map (\<lambda>r. (gmail_message_id r, status r)) (rowsOf (db sk)) =
          map (\<lambda>r. (gmail_message_id r, status r)) (rowsOf (db s)))"

text \<open>The configuration, the mail and the collaborators' answers of the scenarios.\<close>

definition approvalConfig :: Config where
  "approvalConfig = \<lparr>TEST_MODE = False, TEST_SENDER_NAME = ''Patrick M'', AUTO_SEND_ENABLED = False\<rparr>"

definition mail1 :: GmailMessage where
  "mail1 = \<lparr>gm_id = ''m1'',
            gm_get = Inr [(''From'', Some ''Furnished Finder <noreply@furnishedfinder.com>''),
                          (''Subject'', Some ''Booking Inquiry from Nancy E'')]\<rparr>"

definition petsExtracted :: ExtractedData where
  "petsExtracted = \<lparr>ex_tenantName = ''Nancy E'',
                    ex_tenantMessage = ''Hi, is the place pet friendly?'',
                    conversationUrl = ''https://www.furnishedfinder.com/members/messages/1''\<rparr>"

definition petsAnswered :: Outcome where
  "petsAnswered = \<lparr>extractLatestMessage = Inr petsExtracted,
                   generateResponse = Inr ''Yes, we welcome well-behaved pets...'',
                   sendResponse = None,
                   closeBrowser = None\<rparr>"

definition llmDown :: Outcome where
  "llmDown = \<lparr>extractLatestMessage = Inr petsExtracted,
              generateResponse = Inl (Error ''LLM API error: 500 Internal Server Error''),
              sendResponse = None,
              closeBrowser = None\<rparr>"

text \<open>Extraction and generation succeed; closing the browser afterwards throws.\<close>

definition closeThrows :: Outcome where
  "closeThrows = \<lparr>extractLatestMessage = Inr petsExtracted,
                  generateResponse = Inr ''Yes, we welcome well-behaved pets...'',
                  sendResponse = None,
                  closeBrowser = Some (Error ''browser.close: Target closed'')\<rparr>"

text \<open>The item that the poller queues for \<open>mail1\<close>.\<close>

definition queued1 :: QueuedMessage where
  "queued1 = \<lparr>gmailMessageId = ''m1'', tenantName = ''Nancy E'',
              tenantEmail = Some ''noreply@furnishedfinder.com'',
              tenantMessage = ''Booking Inquiry from Nancy E'', retryCount = 0\<rparr>"

text \<open>The system after the tick that finds \<open>mail1\<close>: the item is with the orchestrator.\<close>

definition ticked1 :: System where
  "ticked1 =
     \<lparr>db = Some \<lparr>rows = [\<lparr>row_id = 1, gmail_message_id = ''m1'', tenant_name = ''Nancy E'',
                             tenant_email = Some ''noreply@furnishedfinder.com'',
                             tenant_message = ''Booking Inquiry from Nancy E'',
                             our_response = None, status = Processing, error = None,
                             ff_conversation_url = None\<rparr>],
                    last_rowid = 1\<rparr>,
      messageQueue = \<lparr>queue = [queued1], processing = True, maxRetries = 3\<rparr>,
      suspended = [queued1],
      effects = [DbInsertMessage ''m1'', QueueEnqueue ''m1'',
                 DbUpdateStatus ''m1'' Processing None, ExtractLatestMessage],
      transitions = [(''m1'', Pending, Processing)]\<rparr>"

text \<open>The record that the poller inserts for \<open>mail1\<close>.\<close>

definition inquiry1 :: Message where
  "inquiry1 = \<lparr>row_id = 0, gmail_message_id = ''m1'', tenant_name = ''Nancy E'',
               tenant_email = Some ''noreply@furnishedfinder.com'',
               tenant_message = ''Booking Inquiry from Nancy E'',
               our_response = None, status = Pending, error = None,
               ff_conversation_url = None\<rparr>"

text \<open>The identifier is known to the store or to the queue.\<close>

definition known :: "System \<Rightarrow> string \<Rightarrow> bool" where
  "known s i = (messageExists (db s) i \<or> isInQueue (messageQueue s) i)"

text \<open>
  From \<open>s\<close> to \<open>s1\<close>, whatever was known stays known, is neither inserted nor queued,
  and keeps its rows and its queue entries.
\<close>

definition leavesKnown :: "System \<Rightarrow> System \<Rightarrow> bool" where
  "leavesKnown s s1 =
     ((\<forall>i. known s i \<longrightarrow> known s1 i)
      \<and> (\<exists>new. effects s1 = effects s @ new \<and>
            (\<forall>i. known s i \<longrightarrow> DbInsertMessage i \<notin> set new \<and> QueueEnqueue i \<notin> set new))
      \<and> (\<forall>i. known s i \<longrightarrow>
            length (filter (\<lambda>r. gmail_message_id r = i) (rowsOf (db s1))) =
            length (filter (\<lambda>r. gmail_message_id r = i) (rowsOf (db s)))
            \<and> filter (\<lambda>m. gmailMessageId m = i) (queue (messageQueue s1)) =
              filter (\<lambda>m. gmailMessageId m = i) (queue (messageQueue s))))"

text \<open>
  Among the items of a queue that carry the identifier \<open>b\<close> or the identifier \<open>x\<close>, the
  first one carries \<open>b\<close>.
\<close>

fun firstOf :: "string \<Rightarrow> string \<Rightarrow> QueuedMessage list \<Rightarrow> bool" where
  "firstOf b x [] = False"
| "firstOf b x (m # ms) =
     (if gmailMessageId m = b then True
      else if gmailMessageId m = x then False
      else firstOf b x ms)"

text \<open>The queue after \<open>m1\<close> and \<open>m2\<close> were queued in this order: \<open>m1\<close> is handed over.\<close>

definition queue12 :: MessageQueue where
  "queue12 = \<lparr>queue = [m1, m2], processing = True, maxRetries = 3\<rparr>"

section \<open>The invariant of the system\<close>

text \<open>The statuses of the rows of an identifier.\<close>

definition statuses :: "MessageDatabase \<Rightarrow> string \<Rightarrow> Status list" where
  "statuses d i = map status (filter (\<lambda>r. gmail_message_id r = i) (rowsOf d))"

text \<open>The five changes of status of the pipeline.\<close>

fun allowedTransition :: "Status \<times> Status \<Rightarrow> bool" where
  "allowedTransition (Pending, Processing) = True"
| "allowedTransition (Processing, Sent) = True"
| "allowedTransition (Processing, Pending) = True"
| "allowedTransition (Processing, Failed) = True"
| "allowedTransition (Failed, Processing) = True"
| "allowedTransition (a, b) = False"

text \<open>
  The rows of the queue's head are being processed; the rows of the items behind it are
  pending or failed.
\<close>

definition waiting :: "MessageDatabase \<Rightarrow> QueuedMessage list \<Rightarrow> bool" where
  "waiting d ms = (\<forall>m\<in>set ms. set (statuses d (gmailMessageId m)) \<subseteq> {Pending, Failed})"

definition statusInv :: "MessageDatabase \<Rightarrow> QueuedMessage list \<Rightarrow> bool" where
  "statusInv d ms =
     (case ms of
        [] \<Rightarrow> True
      | h # t \<Rightarrow> set (statuses d (gmailMessageId h)) \<subseteq> {Processing} \<and> waiting d t)"

definition sysInv :: "System \<Rightarrow> bool" where
  "sysInv s =
     (oneInFlight (messageQueue s, suspended s)
      \<and> distinct (map gmailMessageId (queue (messageQueue s)))
      \<and> statusInv (db s) (queue (messageQueue s)))"

text \<open>From \<open>s\<close> to \<open>s1\<close>, only allowed changes of status were written.\<close>

definition extends :: "System \<Rightarrow> System \<Rightarrow> bool" where
  "extends s s1 =
     (\<exists>ts. transitions s1 = transitions s @ ts \<and> (\<forall>t\<in>set ts. allowedTransition (snd t)))"

section \<open>Properties of the queue\<close>


lemma findIndex_Some:
  "findIndex P xs = Some i \<Longrightarrow> i < length xs \<and> P (xs ! i) \<and> (\<forall>j<i. \<not> P (xs ! j))"
proof (induction xs arbitrary: i)
  case Nil
  then show ?case by simp
next
  case (Cons x xs)
  show ?case
  proof (cases "P x")
    case True
    with Cons.prems show ?thesis by simp
  next
    case False
    with Cons.prems obtain k where k: "findIndex P xs = Some k" "i = Suc k"
      by (auto split: if_splits)
    from Cons.IH[OF k(1)] False k(2) show ?thesis
      by (auto simp: nth_Cons split: nat.splits)
  qed
qed

lemma findIndex_None: "findIndex P xs = None \<longleftrightarrow> (\<forall>x\<in>set xs. \<not> P x)"
  by (induction xs) auto

lemma findIndex_hd: "P x \<Longrightarrow> findIndex P (x # xs) = Some 0"
  by simp

lemma set_splice1: "set (splice1 i xs) \<subseteq> set xs"
  by (auto simp: splice1_def dest: in_set_takeD in_set_dropD)

lemma splice1_0 [simp]: "splice1 0 (x # xs) = xs"
  by (simp add: splice1_def)

lemma processNext_fields [simp]:
  "queue (fst (processNext q)) = queue q"
  "maxRetries (fst (processNext q)) = maxRetries q"
  by (auto simp: processNext_def split: list.splits)


lemma applyCall_maxRetries [simp]: "maxRetries (fst (applyCall q c)) = maxRetries q"
  by (cases c)
     (auto simp: enqueue_def messageProcessed_def messageFailed_def Let_def split_beta
           split: option.splits)

lemma applyCall_retryBounded:
  assumes "retryBounded q"
  shows "retryBounded (fst (applyCall q c))"
proof (cases c)
  case (CallEnqueue m)
  with assms show ?thesis
    by (auto simp: retryBounded_def enqueue_def Let_def split_beta)
next
  case (CallProcessed i)
  with assms set_splice1 show ?thesis
    by (fastforce simp: retryBounded_def messageProcessed_def Let_def split_beta
        split: option.splits)
next
  case (CallFailed i err)
  with assms set_splice1 show ?thesis
    by (fastforce simp: retryBounded_def messageFailed_def Let_def split_beta
        split: option.splits)
qed

lemma applyCalls_maxRetries [simp]: "maxRetries (fst (applyCalls q cs)) = maxRetries q"
  by (induction cs arbitrary: q) (auto simp: split_beta Let_def)

lemma applyCalls_retryBounded:
  "retryBounded q \<Longrightarrow> retryBounded (fst (applyCalls q cs))"
proof (induction cs arbitrary: q)
  case Nil
  then show ?case by simp
next
  case (Cons c cs)
  from Cons.IH[OF applyCall_retryBounded[OF Cons.prems, of c]]
  show ?case by (simp add: split_beta Let_def)
qed

lemma newMessageQueue_retryBounded: "retryBounded (newMessageQueue n)"
  by (simp add: retryBounded_def newMessageQueue_def)

lemma applyCall_terminal:
  assumes "retryBounded q" "EmitMessageFailed m err \<in> set (snd (applyCall q c))"
  shows "maxRetries q \<le> int (retryCount m) \<and>
         (1 \<le> maxRetries q \<longrightarrow> int (retryCount m) = maxRetries q)"
proof (cases c)
  case (CallEnqueue m')
  with assms(2) show ?thesis
    by (auto simp: enqueue_def Let_def split_beta processNext_def split: list.splits if_splits)
next
  case (CallProcessed i)
  with assms(2) show ?thesis
    by (auto simp: messageProcessed_def Let_def split_beta processNext_def
        split: list.splits option.splits)
next
  case (CallFailed i e)
  show ?thesis
  proof (cases "findIndex (\<lambda>m. gmailMessageId m = i) (queue q)")
    case None
    with assms(2) CallFailed show ?thesis by (simp add: messageFailed_def)
  next
    case (Some k)
    from findIndex_Some[OF Some] have "queue q ! k \<in> set (queue q)" by simp
    with assms(1) have b: "retryCount (queue q ! k) = 0 \<or> int (retryCount (queue q ! k)) < maxRetries q"
      by (simp add: retryBounded_def)
    from assms(2) CallFailed Some b show ?thesis
      by (auto simp: messageFailed_def Let_def split_beta processNext_def
          split: list.splits if_splits)
  qed
qed

lemma applyCalls_terminal:
  "retryBounded q \<Longrightarrow> EmitMessageFailed m err \<in> set (snd (applyCalls q cs)) \<Longrightarrow>
     maxRetries q \<le> int (retryCount m) \<and> (1 \<le> maxRetries q \<longrightarrow> int (retryCount m) = maxRetries q)"
proof (induction cs arbitrary: q)
  case Nil
  then show ?case by simp
next
  case (Cons c cs)
  from Cons.prems(2) consider
    "EmitMessageFailed m err \<in> set (snd (applyCall q c))"
    | "EmitMessageFailed m err \<in> set (snd (applyCalls (fst (applyCall q c)) cs))"
    by (auto simp: split_beta Let_def)
  then show ?case
  proof cases
    case 1
    from applyCall_terminal[OF Cons.prems(1) 1] show ?thesis .
  next
    case 2
    from Cons.IH[OF applyCall_retryBounded[OF Cons.prems(1)] 2] show ?thesis by simp
  qed
qed


lemma oneInFlight_step:
  assumes inv: "oneInFlight (q, out)" and ok: "permitted out c"
  shows "oneInFlight (fst (applyCall q c), answered c out @ dispatched (snd (applyCall q c)))"
proof (cases c)
  case (CallEnqueue m)
  with inv show ?thesis
    by (auto simp: oneInFlight_def enqueue_def Let_def processNext_def split: list.splits)
next
  case (CallProcessed i)
  with inv ok obtain m ms where q: "queue q = m # ms" "out = [m]" "gmailMessageId m = i" "processing q"
    by (auto simp: oneInFlight_def split: list.splits)
  with CallProcessed show ?thesis
    by (auto simp: oneInFlight_def messageProcessed_def Let_def processNext_def
        split: list.splits)
next
  case (CallFailed i err)
  with inv ok obtain m ms where q: "queue q = m # ms" "out = [m]" "gmailMessageId m = i" "processing q"
    by (auto simp: oneInFlight_def split: list.splits)
  with CallFailed show ?thesis
    by (auto simp: oneInFlight_def messageFailed_def Let_def processNext_def
        split: list.splits)
qed

lemma oneInFlight_runCalls:
  "oneInFlight (q, out) \<Longrightarrow> runCalls (q, out) cs = Some st \<Longrightarrow> oneInFlight st"
proof (induction cs arbitrary: q out)
  case Nil
  then show ?case by simp
next
  case (Cons c cs)
  from Cons.prems(2) have ok: "permitted out c"
    by (auto split: if_splits)
  with Cons.prems(2) have
    "runCalls (fst (applyCall q c), answered c out @ dispatched (snd (applyCall q c))) cs = Some st"
    by (simp add: split_beta)
  from Cons.IH[OF oneInFlight_step[OF Cons.prems(1) ok] this] show ?case .
qed

lemma oneInFlight_new: "oneInFlight (newMessageQueue n, [])"
  by (simp add: oneInFlight_def newMessageQueue_def)

lemma oneInFlight_length: "oneInFlight (q, out) \<Longrightarrow> length out \<le> 1 \<and> (processing q \<longleftrightarrow> out \<noteq> [])"
  by (auto simp: oneInFlight_def split: list.splits)


lemma messageFailed_step:
  assumes "findIndex (\<lambda>m. gmailMessageId m = i) (queue q) = Some k"
  shows "let msg = (queue q ! k)\<lparr>retryCount := Suc (retryCount (queue q ! k))\<rparr>;
             (q', evs) = messageFailed q i err
         in (if maxRetries q \<le> int (retryCount msg)
             then queue q' = splice1 k (queue q) \<and>
                  filter isTerminalFailure evs = [EmitMessageFailed msg err]
             else queue q' = splice1 k (queue q) @ [msg] \<and>
                  filter isTerminalFailure evs = [])"
  using assms
  by (auto simp: messageFailed_def Let_def processNext_def split: list.splits)

lemma messageFailed_absent:
  "\<not> isInQueue q i \<Longrightarrow> messageFailed q i err = (q, [])"
  by (simp add: messageFailed_def isInQueue_def list_ex_iff findIndex_None[THEN iffD2])




lemma enqueue_queue [simp]: "queue (fst (enqueue q m)) = queue q @ [m\<lparr>retryCount := 0\<rparr>]"
  by (simp add: enqueue_def Let_def split_beta)

lemma firstOf_append: "firstOf b x xs \<Longrightarrow> firstOf b x (xs @ ys)"
  by (induction xs) (auto split: if_splits)

lemma firstOf_member:
  "m \<in> set xs \<Longrightarrow> gmailMessageId m = b \<Longrightarrow> x \<notin> gmailMessageId ` set xs \<Longrightarrow> firstOf b x xs"
  by (induction xs) auto

lemma firstOf_between:
  "b \<noteq> x \<Longrightarrow> distinct (map gmailMessageId (pre @ B # rest)) \<Longrightarrow> X \<in> set rest \<Longrightarrow>
     firstOf (gmailMessageId B) (gmailMessageId X) (pre @ B # rest)"
proof (induction pre)
  case Nil
  then show ?case by simp
next
  case (Cons a pre)
  then have "gmailMessageId a \<noteq> gmailMessageId X"
    by auto
  with Cons show ?case by auto
qed

lemma handed_over_head:
  assumes "oneInFlight (q, out)" "list_ex (\<lambda>m. gmailMessageId m = i) out"
  obtains h t where "queue q = h # t" "gmailMessageId h = i" "out = [h]" "processing q"
  using assms by (auto simp: oneInFlight_def split: list.splits)

lemma messageProcessed_head:
  "queue q = h # t \<Longrightarrow> gmailMessageId h = i \<Longrightarrow> queue (fst (messageProcessed q i)) = t"
  by (simp add: messageProcessed_def Let_def split_beta)

lemma messageFailed_head:
  "queue q = h # t \<Longrightarrow> gmailMessageId h = i \<Longrightarrow>
     queue (fst (messageFailed q i err)) =
       (if maxRetries q \<le> int (Suc (retryCount h)) then t
        else t @ [h\<lparr>retryCount := Suc (retryCount h)\<rparr>])"
  by (simp add: messageFailed_def Let_def split_beta)

lemma firstOf_step:
  assumes inv: "oneInFlight (q, out)" and ok: "permitted out c"
    and f: "firstOf b x (queue q)" and ne: "b \<noteq> x"
    and nb: "c \<noteq> CallProcessed b" "\<forall>err. c \<noteq> CallFailed b err"
  shows "firstOf b x (queue (fst (applyCall q c)))"
proof (cases c)
  case (CallEnqueue m)
  with f show ?thesis by (simp add: firstOf_append)
next
  case (CallProcessed i)
  with ok have "list_ex (\<lambda>m. gmailMessageId m = i) out" by simp
  from handed_over_head[OF inv this] obtain h t where
    h: "queue q = h # t" "gmailMessageId h = i" by blast
  from nb CallProcessed have "i \<noteq> b" by simp
  with f h have "firstOf b x t" by (auto split: if_splits)
  with CallProcessed messageProcessed_head[OF h] show ?thesis by simp
next
  case (CallFailed i err)
  with ok have "list_ex (\<lambda>m. gmailMessageId m = i) out" by simp
  from handed_over_head[OF inv this] obtain h t where
    h: "queue q = h # t" "gmailMessageId h = i" by blast
  from nb CallFailed have "i \<noteq> b" by simp
  with f h have "firstOf b x t" by (auto split: if_splits)
  with CallFailed messageFailed_head[OF h, of err] show ?thesis
    by (simp add: firstOf_append)
qed

lemma firstOf_not_handed_over:
  assumes "oneInFlight (q, out)" "firstOf b x (queue q)" "b \<noteq> x"
  shows "\<forall>m\<in>set out. gmailMessageId m \<noteq> x"
  using assms by (auto simp: oneInFlight_def split: list.splits if_splits)

text \<open>
  While the first item with identifier \<open>b\<close> is ahead of every item with identifier \<open>x\<close>
  and does not fail, no item with identifier \<open>x\<close> is handed over before the completion
  of \<open>b\<close> is signalled.
\<close>

lemma completes_before:
  assumes "oneInFlight (q, out)" "firstOf b x (queue q)" "b \<noteq> x"
    and "runCalls (q, out) cs = Some (q', out')"
    and "\<forall>err. CallFailed b err \<notin> set cs"
    and "\<exists>m\<in>set out'. gmailMessageId m = x"
  shows "CallProcessed b \<in> set cs"
  using assms
proof (induction cs arbitrary: q out)
  case Nil
  with firstOf_not_handed_over[OF Nil.prems(1,2,3)] show ?case by auto
next
  case (Cons c cs)
  show ?case
  proof (cases "c = CallProcessed b")
    case True
    then show ?thesis by simp
  next
    case False
    from Cons.prems(4) have ok: "permitted out c"
      by (auto split: if_splits)
    with Cons.prems(4) have run:
      "runCalls (fst (applyCall q c), answered c out @ dispatched (snd (applyCall q c))) cs
         = Some (q', out')"
      by (simp add: split_beta)
    from Cons.prems(5) have nf: "\<forall>err. c \<noteq> CallFailed b err" "\<forall>err. CallFailed b err \<notin> set cs"
      by auto
    from firstOf_step[OF Cons.prems(1) ok Cons.prems(2,3) False nf(1)]
    have f: "firstOf b x (queue (fst (applyCall q c)))" .
    from Cons.IH[OF oneInFlight_step[OF Cons.prems(1) ok] f Cons.prems(3) run nf(2) Cons.prems(6)]
    show ?thesis by simp
  qed
qed


section \<open>Properties of the store\<close>

lemma insertMessage_ids:
  "insertMessage d msg = Inr (d1, i) \<Longrightarrow>
     \<not> messageExists d (gmail_message_id msg) \<and>
     (\<exists>row. rowsOf d1 = rowsOf d @ [row] \<and> gmail_message_id row = gmail_message_id msg)"
  by (auto simp: insertMessage_def messageExists_def rowsOf_def Let_def list_ex_iff filter_empty_conv
      split: option.splits if_splits)

lemma insertMessage_duplicate:
  "messageExists d (gmail_message_id msg) \<Longrightarrow>
     insertMessage d msg = Inl (Error ''UNIQUE constraint failed: messages.gmail_message_id'')"
  by (auto simp: insertMessage_def messageExists_def list_ex_iff filter_empty_conv
      split: option.splits)

lemma messageExists_iff: "messageExists d i \<longleftrightarrow> i \<in> gmail_message_id ` set (rowsOf d)"
  by (auto simp: messageExists_def rowsOf_def filter_empty_conv split: option.splits)

lemma insertAll_prefix:
  "\<exists>new. rowsOf (insertAll (Some t) msgs) = rows t @ new"
proof (induction msgs arbitrary: t)
  case Nil
  then show ?case by (simp add: rowsOf_def)
next
  case (Cons msg msgs)
  show ?case
  proof (cases "insertMessage (Some t) msg")
    case (Inl err)
    with Cons.IH[of t] show ?thesis by simp
  next
    case (Inr p)
    then obtain t1 i where p: "p = (Some t1, i)"
      by (cases p) (auto simp: insertMessage_def Let_def split: if_splits)
    from insertMessage_ids[OF Inr[unfolded p]] obtain row where "rows t1 = rows t @ [row]"
      by (auto simp: rowsOf_def)
    with Cons.IH[of t1] Inr p show ?thesis by auto
  qed
qed

lemma insertAll_distinct:
  "distinct (map gmail_message_id (rows t)) \<Longrightarrow>
   distinct (map gmail_message_id (rowsOf (insertAll (Some t) msgs))) \<and>
   gmail_message_id ` set (rowsOf (insertAll (Some t) msgs)) =
     gmail_message_id ` set (rows t) \<union> gmail_message_id ` set msgs"
proof (induction msgs arbitrary: t)
  case Nil
  then show ?case by (simp add: rowsOf_def)
next
  case (Cons msg msgs)
  show ?case
  proof (cases "insertMessage (Some t) msg")
    case (Inl err)
    then have "messageExists (Some t) (gmail_message_id msg)"
      by (auto simp: insertMessage_def messageExists_def Let_def list_ex_iff filter_empty_conv split: if_splits)
    then have "gmail_message_id msg \<in> gmail_message_id ` set (rows t)"
      by (simp add: messageExists_iff rowsOf_def)
    with Cons.IH[OF Cons.prems] Inl show ?thesis by auto
  next
    case (Inr p)
    then obtain t1 i where p: "p = (Some t1, i)"
      by (cases p) (auto simp: insertMessage_def Let_def split: if_splits)
    from insertMessage_ids[OF Inr[unfolded p]] obtain row where
      row: "rows t1 = rows t @ [row]" "gmail_message_id row = gmail_message_id msg"
      "gmail_message_id msg \<notin> gmail_message_id ` set (rows t)"
      by (auto simp: rowsOf_def messageExists_iff)
    then have "distinct (map gmail_message_id (rows t1))"
      using Cons.prems by auto
    from Cons.IH[OF this] Inr p row show ?thesis by auto
  qed
qed

lemma insertAll_Some: "\<exists>t'. insertAll (Some t) msgs = Some t'"
proof (induction msgs arbitrary: t)
  case Nil
  then show ?case by simp
next
  case (Cons msg msgs)
  show ?case
  proof (cases "insertMessage (Some t) msg")
    case (Inl err)
    with Cons.IH[of t] show ?thesis by simp
  next
    case (Inr p)
    then obtain t1 i where p: "p = (Some t1, i)"
      by (cases p) (auto simp: insertMessage_def Let_def split: if_splits)
    with Cons.IH[of t1] Inr show ?thesis by simp
  qed
qed

lemma insertAll_append: "insertAll d (xs @ ys) = insertAll (insertAll d xs) ys"
  by (induction xs arbitrary: d) (auto split: sum.splits)

lemma distinct_filter_one:
  "distinct (map f xs) \<Longrightarrow> x \<in> set xs \<Longrightarrow> length (filter (\<lambda>r. f r = f x) xs) = 1"
proof (induction xs)
  case Nil
  then show ?case by simp
next
  case (Cons a xs)
  show ?case
  proof (cases "f a = f x")
    case True
    with Cons.prems have "\<forall>r\<in>set xs. f r \<noteq> f x"
      by (metis distinct.simps(2) image_eqI list.simps(9) set_ConsD set_map)
    then have "filter (\<lambda>r. f r = f x) xs = []"
      by (simp add: filter_empty_conv)
    with True show ?thesis by simp
  next
    case False
    with Cons show ?thesis by auto
  qed
qed


section \<open>Properties of the system primitives\<close>

lemma call_fields [simp]:
  "db (call e s) = db s" "messageQueue (call e s) = messageQueue s"
  "suspended (call e s) = suspended s" "effects (call e s) = effects s @ [e]"
  "transitions (call e s) = transitions s"
  by (simp_all add: call_def)

lemma dbUpdateStatus_fields [simp]:
  "db (dbUpdateStatus i st err s) = updateStatus (db s) i st err"
  "messageQueue (dbUpdateStatus i st err s) = messageQueue s"
  "suspended (dbUpdateStatus i st err s) = suspended s"
  "effects (dbUpdateStatus i st err s) = effects s @ [DbUpdateStatus i st err]"
  "transitions (dbUpdateStatus i st err s) = transitions s @
     map (\<lambda>r. (i, status r, st)) (filter (\<lambda>r. gmail_message_id r = i) (rowsOf (db s)))"
  by (simp_all add: dbUpdateStatus_def)

lemma dbUpdateResponse_fields [simp]:
  "db (dbUpdateResponse i t s) = updateResponse (db s) i t"
  "messageQueue (dbUpdateResponse i t s) = messageQueue s"
  "suspended (dbUpdateResponse i t s) = suspended s"
  "effects (dbUpdateResponse i t s) = effects s @ [DbUpdateResponse i t]"
  "transitions (dbUpdateResponse i t s) = transitions s"
  by (simp_all add: dbUpdateResponse_def)

lemma processMessageStart_fields [simp]:
  "db (processMessageStart s m) = updateStatus (db s) (gmailMessageId m) Processing None"
  "messageQueue (processMessageStart s m) = messageQueue s"
  "suspended (processMessageStart s m) = suspended s @ [m]"
  "effects (processMessageStart s m) =
     effects s @ [DbUpdateStatus (gmailMessageId m) Processing None, ExtractLatestMessage]"
  "transitions (processMessageStart s m) = transitions s @
     map (\<lambda>r. (gmailMessageId m, status r, Processing))
       (filter (\<lambda>r. gmail_message_id r = gmailMessageId m) (rowsOf (db s)))"
  by (simp_all add: processMessageStart_def Let_def)

lemma emitAll_simps [simp]:
  "emitAll s [] = s"
  "emitAll s (ev # evs) = emitAll (listener s ev) evs"
  by (simp_all add: emitAll_def)

lemma listener_messageQueue [simp]: "messageQueue (listener s ev) = messageQueue s"
  by (cases ev) simp_all

lemma emitAll_messageQueue [simp]: "messageQueue (emitAll s evs) = messageQueue s"
  by (induction evs arbitrary: s) simp_all

lemma isInQueue_findIndex:
  "isInQueue q i \<longleftrightarrow> (\<exists>k. findIndex (\<lambda>m. gmailMessageId m = i) (queue q) = Some k)"
  using findIndex_None[of "\<lambda>m. gmailMessageId m = i" "queue q"]
  by (auto simp: isInQueue_def list_ex_iff)

text \<open>Rows: identifiers and the columns that only the insertion writes.\<close>

lemma rowsOf_updateStatus:
  "rowsOf (updateStatus d i st err) =
     map (\<lambda>r. if gmail_message_id r = i then r\<lparr>status := st, error := orNull err\<rparr> else r) (rowsOf d)"
  by (simp add: updateStatus_def rowsOf_def split: option.splits)

lemma rowsOf_updateResponse:
  "rowsOf (updateResponse d i t) =
     map (\<lambda>r. if gmail_message_id r = i then r\<lparr>our_response := Some t\<rparr> else r) (rowsOf d)"
  by (simp add: updateResponse_def rowsOf_def split: option.splits)

text \<open>What the queue emits, and the listeners' answer.\<close>

lemma messageFailed_events:
  "snd (messageFailed q i err) = filter isTerminalFailure (snd (messageFailed q i err)) @
      (if isInQueue q i then map EmitProcessMessage (take 1 (queue (fst (messageFailed q i err)))) else [])"
  by (auto simp: messageFailed_def isInQueue_findIndex Let_def processNext_def
      split: option.splits list.splits)

lemma messageProcessed_events:
  "\<exists>done. snd (messageProcessed q i) = done @
      (if isInQueue q i then map EmitProcessMessage (take 1 (queue (fst (messageProcessed q i)))) else [])
     \<and> (\<forall>ev\<in>set done. \<exists>m. ev = EmitMessageCompleted m)"
  by (auto simp: messageProcessed_def isInQueue_findIndex Let_def processNext_def
      split: option.splits list.splits)
lemma emitAll_effects: "effects (emitAll s evs) = effects s @ concat (map listenerEffects evs)"
proof (induction evs arbitrary: s)
  case Nil
  then show ?case by simp
next
  case (Cons ev evs)
  then show ?case by (cases ev) simp_all
qed

lemma emitAll_suspended: "suspended (emitAll s evs) = suspended s @ dispatched evs"
proof (induction evs arbitrary: s)
  case Nil
  then show ?case by simp
next
  case (Cons ev evs)
  then show ?case by (cases ev) simp_all
qed

lemma dispatched_append [simp]: "dispatched (xs @ ys) = dispatched xs @ dispatched ys"
  by (induction xs rule: dispatched.induct) simp_all

lemma dispatched_terminal [simp]: "dispatched (filter isTerminalFailure xs) = []"
  by (induction xs rule: dispatched.induct) simp_all

lemma dispatched_map [simp]: "dispatched (map EmitProcessMessage ys) = ys"
  by (induction ys) simp_all

lemma dispatched_completed:
  "\<forall>ev\<in>set xs. \<exists>m. ev = EmitMessageCompleted m \<Longrightarrow> dispatched xs = []"
  by (induction xs rule: dispatched.induct) auto

lemma dispatched_messageFailed:
  "dispatched (snd (messageFailed q i err)) =
     (if isInQueue q i then take 1 (queue (fst (messageFailed q i err))) else [])"
  by (subst messageFailed_events) simp

lemma dispatched_messageProcessed:
  "dispatched (snd (messageProcessed q i)) =
     (if isInQueue q i then take 1 (queue (fst (messageProcessed q i))) else [])"
proof -
  from messageProcessed_events[of q i] obtain done' where
    d: "snd (messageProcessed q i) = done' @
      (if isInQueue q i then map EmitProcessMessage (take 1 (queue (fst (messageProcessed q i)))) else [])"
    and c: "\<forall>ev\<in>set done'. \<exists>m. ev = EmitMessageCompleted m"
    by blast
  show ?thesis
    by (subst d) (simp add: dispatched_completed[OF c])
qed

lemma filter_updateStatus_other:
  "j \<noteq> i \<Longrightarrow>
     filter (\<lambda>r. gmail_message_id r = i) (rowsOf (updateStatus d j st err)) =
     filter (\<lambda>r. gmail_message_id r = i) (rowsOf d)"
proof -
  have "filter (\<lambda>r. gmail_message_id r = i)
          (map (\<lambda>r. if gmail_message_id r = j then r\<lparr>status := st, error := orNull err\<rparr> else r) xs) =
        filter (\<lambda>r. gmail_message_id r = i) xs" if "j \<noteq> i" for xs
    using that by (induction xs) auto
  then show "j \<noteq> i \<Longrightarrow> ?thesis"
    by (simp add: rowsOf_updateStatus)
qed

lemma listener_other_rows:
  "\<forall>m\<in>set (dispatched [ev]). gmailMessageId m \<noteq> i \<Longrightarrow>
     filter (\<lambda>r. gmail_message_id r = i) (rowsOf (db (listener s ev))) =
     filter (\<lambda>r. gmail_message_id r = i) (rowsOf (db s))"
  by (cases ev) (simp_all add: filter_updateStatus_other)

lemma emitAll_other_rows:
  "\<forall>m\<in>set (dispatched evs). gmailMessageId m \<noteq> i \<Longrightarrow>
     filter (\<lambda>r. gmail_message_id r = i) (rowsOf (db (emitAll s evs))) =
     filter (\<lambda>r. gmail_message_id r = i) (rowsOf (db s))"
proof (induction evs arbitrary: s)
  case Nil
  then show ?case by simp
next
  case (Cons ev evs)
  have split: "dispatched (ev # evs) = dispatched [ev] @ dispatched evs"
    using dispatched_append[of "[ev]" evs] by simp
  from Cons.prems split have a: "\<forall>m\<in>set (dispatched [ev]). gmailMessageId m \<noteq> i"
    and b: "\<forall>m\<in>set (dispatched evs). gmailMessageId m \<noteq> i"
    by auto
  from Cons.IH[OF b, of "listener s ev"] listener_other_rows[OF a, of s]
  show ?case by simp
qed

lemma queueMessageFailed_fields:
  "messageQueue (queueMessageFailed i err s) = fst (messageFailed (messageQueue s) i err)"
  "effects (queueMessageFailed i err s) = effects s @ [QueueMessageFailed i err] @
      concat (map listenerEffects (snd (messageFailed (messageQueue s) i err)))"
  "suspended (queueMessageFailed i err s) = suspended s @
      (if isInQueue (messageQueue s) i
       then take 1 (queue (fst (messageFailed (messageQueue s) i err))) else [])"
  by (simp_all add: queueMessageFailed_def split_beta emitAll_effects emitAll_suspended
      dispatched_messageFailed)

lemma queueMessageProcessed_fields:
  "messageQueue (queueMessageProcessed i s) = fst (messageProcessed (messageQueue s) i)"
  "effects (queueMessageProcessed i s) = effects s @ [QueueMessageProcessed i] @
      concat (map listenerEffects (snd (messageProcessed (messageQueue s) i)))"
  "suspended (queueMessageProcessed i s) = suspended s @
      (if isInQueue (messageQueue s) i
       then take 1 (queue (fst (messageProcessed (messageQueue s) i))) else [])"
  by (simp_all add: queueMessageProcessed_def split_beta emitAll_effects emitAll_suspended
      dispatched_messageProcessed)

lemma queueMessageFailed_other_rows:
  assumes "queue (fst (messageFailed (messageQueue s) i err)) = [] \<or>
           gmailMessageId (hd (queue (fst (messageFailed (messageQueue s) i err)))) \<noteq> i"
  shows "filter (\<lambda>r. gmail_message_id r = i) (rowsOf (db (queueMessageFailed i err s))) =
         filter (\<lambda>r. gmail_message_id r = i) (rowsOf (db s))"
proof -
  have "\<forall>m\<in>set (dispatched (snd (messageFailed (messageQueue s) i err))). gmailMessageId m \<noteq> i"
    using assms
    by (cases "queue (fst (messageFailed (messageQueue s) i err))")
       (auto simp: dispatched_messageFailed)
  from emitAll_other_rows[OF this] show ?thesis
    by (simp add: queueMessageFailed_def split_beta)
qed

lemma queueMessageProcessed_other_rows:
  assumes "queue (fst (messageProcessed (messageQueue s) i)) = [] \<or>
           gmailMessageId (hd (queue (fst (messageProcessed (messageQueue s) i)))) \<noteq> i"
  shows "filter (\<lambda>r. gmail_message_id r = i) (rowsOf (db (queueMessageProcessed i s))) =
         filter (\<lambda>r. gmail_message_id r = i) (rowsOf (db s))"
proof -
  have "\<forall>m\<in>set (dispatched (snd (messageProcessed (messageQueue s) i))). gmailMessageId m \<noteq> i"
    using assms
    by (cases "queue (fst (messageProcessed (messageQueue s) i))")
       (auto simp: dispatched_messageProcessed)
  from emitAll_other_rows[OF this] show ?thesis
    by (simp add: queueMessageProcessed_def split_beta)
qed
lemma status_transitions_cong:
  "map (\<lambda>r. (i, status r, st)) (filter (\<lambda>r. gmail_message_id r = i) xs) =
   map (\<lambda>p. (i, snd p, st)) (filter (\<lambda>p. fst p = i) (map (\<lambda>r. (gmail_message_id r, status r)) xs))"
  by (induction xs) auto

lemma statuses_updateResponse [simp]:
  "map (\<lambda>r. (gmail_message_id r, status r)) (rowsOf (updateResponse d i t)) =
   map (\<lambda>r. (gmail_message_id r, status r)) (rowsOf d)"
  by (simp add: rowsOf_updateResponse o_def cong: if_cong)

lemma emitAll_db: "db (emitAll s evs) = dispatchDb (db s) (dispatched evs)"
proof (induction evs arbitrary: s)
  case Nil
  then show ?case by simp
next
  case (Cons ev evs)
  then show ?case by (cases ev) simp_all
qed

lemma emitAll_transitions:
  "transitions (emitAll s evs) = transitions s @ dispatchTransitions (db s) (dispatched evs)"
proof (induction evs arbitrary: s)
  case Nil
  then show ?case by simp
next
  case (Cons ev evs)
  then show ?case by (cases ev) simp_all
qed

lemma queueMessageFailed_db:
  "db (queueMessageFailed i err s) =
     dispatchDb (db s) (if isInQueue (messageQueue s) i
       then take 1 (queue (fst (messageFailed (messageQueue s) i err))) else [])"
  "transitions (queueMessageFailed i err s) = transitions s @
     dispatchTransitions (db s) (if isInQueue (messageQueue s) i
       then take 1 (queue (fst (messageFailed (messageQueue s) i err))) else [])"
  by (simp_all add: queueMessageFailed_def split_beta emitAll_db emitAll_transitions
      dispatched_messageFailed)

lemma queueMessageProcessed_db:
  "db (queueMessageProcessed i s) =
     dispatchDb (db s) (if isInQueue (messageQueue s) i
       then take 1 (queue (fst (messageProcessed (messageQueue s) i))) else [])"
  "transitions (queueMessageProcessed i s) = transitions s @
     dispatchTransitions (db s) (if isInQueue (messageQueue s) i
       then take 1 (queue (fst (messageProcessed (messageQueue s) i))) else [])"
  by (simp_all add: queueMessageProcessed_def split_beta emitAll_db emitAll_transitions
      dispatched_messageProcessed)

lemma queueEnqueue_fields:
  "messageQueue (queueEnqueue m s) = fst (enqueue (messageQueue s) m)"
  "effects (queueEnqueue m s) = effects s @ [QueueEnqueue (gmailMessageId m)] @
      concat (map listenerEffects (snd (enqueue (messageQueue s) m)))"
  "suspended (queueEnqueue m s) = suspended s @ dispatched (snd (enqueue (messageQueue s) m))"
  "db (queueEnqueue m s) = dispatchDb (db s) (dispatched (snd (enqueue (messageQueue s) m)))"
  "transitions (queueEnqueue m s) = transitions s @
      dispatchTransitions (db s) (dispatched (snd (enqueue (messageQueue s) m)))"
  by (simp_all add: queueEnqueue_def split_beta emitAll_effects emitAll_suspended emitAll_db
      emitAll_transitions)

lemma catchBlock_eq:
  "catchBlock s m err =
     (queueMessageFailed (gmailMessageId m) err
        (call (errorNotification err m)
           (dbUpdateStatus (gmailMessageId m) Failed (Some (message err)) (call CloseBrowser s))),
      Some err)"
  by (simp add: catchBlock_def Let_def)

lemma catchBlock_result: "snd (catchBlock s m err) = Some err"
  by (simp add: catchBlock_eq)

lemma catchBlock_queue:
  "messageQueue (fst (catchBlock s m err)) = fst (messageFailed (messageQueue s) (gmailMessageId m) err)"
  by (simp add: catchBlock_eq queueMessageFailed_fields)

lemma catchBlock_effects:
  "\<exists>post. effects (fst (catchBlock s m err)) = effects s @
      [CloseBrowser, DbUpdateStatus (gmailMessageId m) Failed (Some (message err)),
       errorNotification err m, QueueMessageFailed (gmailMessageId m) err] @ post"
  by (simp add: catchBlock_eq queueMessageFailed_fields)

lemma catchBlock_transitions:
  "\<exists>later. transitions (fst (catchBlock s m err)) = transitions s @
      map (\<lambda>r. (gmailMessageId m, status r, Failed))
        (filter (\<lambda>r. gmail_message_id r = gmailMessageId m) (rowsOf (db s))) @ later"
  by (simp add: catchBlock_eq queueMessageFailed_db)

lemma catchBlock_rows:
  assumes "queue (fst (messageFailed (messageQueue s) (gmailMessageId m) err)) = [] \<or>
     gmailMessageId (hd (queue (fst (messageFailed (messageQueue s) (gmailMessageId m) err))))
       \<noteq> gmailMessageId m"
  shows "\<forall>r\<in>set (rowsOf (db (fst (catchBlock s m err)))). gmail_message_id r = gmailMessageId m \<longrightarrow>
           status r = Failed \<and> error r = orNull (Some (message err))"
proof -
  let ?i = "gmailMessageId m"
  let ?s3 = "call (errorNotification err m)
              (dbUpdateStatus ?i Failed (Some (message err)) (call CloseBrowser s))"
  have "queue (fst (messageFailed (messageQueue ?s3) ?i err)) = [] \<or>
        gmailMessageId (hd (queue (fst (messageFailed (messageQueue ?s3) ?i err)))) \<noteq> ?i"
    using assms by simp
  from queueMessageFailed_other_rows[OF this]
  have "filter (\<lambda>r. gmail_message_id r = ?i) (rowsOf (db (fst (catchBlock s m err)))) =
        filter (\<lambda>r. gmail_message_id r = ?i) (rowsOf (updateStatus (db s) ?i Failed (Some (message err))))"
    by (simp add: catchBlock_eq)
  then have "set (filter (\<lambda>r. gmail_message_id r = ?i) (rowsOf (db (fst (catchBlock s m err))))) \<subseteq>
        set (rowsOf (updateStatus (db s) ?i Failed (Some (message err))))"
    by simp
  then show ?thesis
    by (auto simp: rowsOf_updateStatus split: if_splits)
qed

lemma responsesOnly_refl: "\<exists>pre. responsesOnly s s pre"
  by (rule exI[of _ "[]"]) (simp add: responsesOnly_def)

lemma responsesOnly_call:
  "\<exists>pre. responsesOnly s sk pre \<Longrightarrow> \<exists>pre. responsesOnly s (call e sk) pre"
  by (auto simp: responsesOnly_def)

lemma responsesOnly_response:
  "\<exists>pre. responsesOnly s sk pre \<Longrightarrow> \<exists>pre. responsesOnly s (dbUpdateResponse i t sk) pre"
  by (auto simp: responsesOnly_def)

lemma responsesOnly_if:
  "\<exists>pre. responsesOnly s sk pre \<Longrightarrow> \<exists>pre. responsesOnly s sk' pre \<Longrightarrow>
     \<exists>pre. responsesOnly s (if c then sk else sk') pre"
  by simp

lemmas responsesOnly_intros =
  responsesOnly_if responsesOnly_call responsesOnly_response responsesOnly_refl

text \<open>The five points at which the \<^verbatim>\<open>try\<close> block of \<^verbatim>\<open>processMessage\<close> throws.\<close>

lemma resume_failure:
  assumes "extractLatestMessage out = Inl err
     \<or> (\<exists>d. extractLatestMessage out = Inr d \<and> generateResponse out = Inl err)
     \<or> (\<exists>d t. extractLatestMessage out = Inr d \<and> generateResponse out = Inr t
           \<and> AUTO_SEND_ENABLED cfg \<and> sendResponse out = Some err)
     \<or> (\<exists>d t. extractLatestMessage out = Inr d \<and> generateResponse out = Inr t
           \<and> AUTO_SEND_ENABLED cfg \<and> sendResponse out = None \<and> closeBrowser out = Some err)
     \<or> (\<exists>d t. extractLatestMessage out = Inr d \<and> generateResponse out = Inr t
           \<and> \<not> AUTO_SEND_ENABLED cfg \<and> closeBrowser out = Some err)"
  shows "\<exists>sk. processMessageResume cfg s m out = catchBlock sk m err \<and> (\<exists>pre. responsesOnly s sk pre)"
  using assms
proof (elim disjE exE conjE)
  assume "extractLatestMessage out = Inl err"
  then have "processMessageResume cfg s m out = catchBlock s m err"
    by (simp add: processMessageResume_def)
  with responsesOnly_refl show ?thesis by blast
next
  fix d
  assume a: "extractLatestMessage out = Inr d" "generateResponse out = Inl err"
  show ?thesis
    apply (simp add: processMessageResume_def a Let_def split del: if_split)
    apply (rule exI, rule conjI, rule refl)
    apply (intro responsesOnly_intros)
    done
next
  fix d t
  assume a: "extractLatestMessage out = Inr d" "generateResponse out = Inr t"
    "AUTO_SEND_ENABLED cfg" "sendResponse out = Some err"
  show ?thesis
    apply (simp add: processMessageResume_def a Let_def split del: if_split)
    apply (rule exI, rule conjI, rule refl)
    apply (intro responsesOnly_intros)
    done
next
  fix d t
  assume a: "extractLatestMessage out = Inr d" "generateResponse out = Inr t"
    "AUTO_SEND_ENABLED cfg" "sendResponse out = None" "closeBrowser out = Some err"
  show ?thesis
    apply (simp add: processMessageResume_def a Let_def split del: if_split)
    apply (rule exI, rule conjI, rule refl)
    apply (intro responsesOnly_intros)
    done
next
  fix d t
  assume a: "extractLatestMessage out = Inr d" "generateResponse out = Inr t"
    "\<not> AUTO_SEND_ENABLED cfg" "closeBrowser out = Some err"
  show ?thesis
    apply (simp add: processMessageResume_def a Let_def split del: if_split)
    apply (rule exI, rule conjI, rule refl)
    apply (intro responsesOnly_intros)
    done
qed

text \<open>Whether \<^verbatim>\<open>processMessage\<close> rejects, and with which error.\<close>

lemma resume_result:
  "snd (processMessageResume cfg s m out) =
     (case extractLatestMessage out of
        Inl err \<Rightarrow> Some err
      | Inr d \<Rightarrow>
          (case generateResponse out of
             Inl err \<Rightarrow> Some err
           | Inr t \<Rightarrow>
               (if AUTO_SEND_ENABLED cfg
                then (case sendResponse out of Some err \<Rightarrow> Some err | None \<Rightarrow> closeBrowser out)
                else closeBrowser out)))"
  by (simp add: processMessageResume_def Let_def catchBlock_result
      split: sum.splits option.splits)


lemma resume_rejects:
  assumes "snd (processMessageResume cfg s m out) = Some err"
  shows "extractLatestMessage out = Inl err
     \<or> (\<exists>d. extractLatestMessage out = Inr d \<and> generateResponse out = Inl err)
     \<or> (\<exists>d t. extractLatestMessage out = Inr d \<and> generateResponse out = Inr t
           \<and> AUTO_SEND_ENABLED cfg \<and> sendResponse out = Some err)
     \<or> (\<exists>d t. extractLatestMessage out = Inr d \<and> generateResponse out = Inr t
           \<and> AUTO_SEND_ENABLED cfg \<and> sendResponse out = None \<and> closeBrowser out = Some err)
     \<or> (\<exists>d t. extractLatestMessage out = Inr d \<and> generateResponse out = Inr t
           \<and> \<not> AUTO_SEND_ENABLED cfg \<and> closeBrowser out = Some err)"
  using assms unfolding resume_result
  by (auto split: sum.splits option.splits if_splits)


lemma ticked1_run:
  "sysRun approvalConfig (startSystem (Some emptyTable) 3) [Tick (Inr [mail1])] = ticked1"
  by code_simp


lemma listenerEffects_no_approval:
  "filter isApproval (concat (map listenerEffects evs)) = []"
proof (induction evs)
  case Nil
  then show ?case by simp
next
  case (Cons ev evs)
  then show ?case by (cases ev) simp_all
qed


lemma kept_updateStatus [simp]:
  "map (\<lambda>r. (gmail_message_id r, tenant_message r, ff_conversation_url r)) (rowsOf (updateStatus d i st err)) =
   map (\<lambda>r. (gmail_message_id r, tenant_message r, ff_conversation_url r)) (rowsOf d)"
  by (simp add: rowsOf_updateStatus o_def cong: if_cong)

lemma kept_updateResponse [simp]:
  "map (\<lambda>r. (gmail_message_id r, tenant_message r, ff_conversation_url r)) (rowsOf (updateResponse d i t)) =
   map (\<lambda>r. (gmail_message_id r, tenant_message r, ff_conversation_url r)) (rowsOf d)"
  by (simp add: rowsOf_updateResponse o_def cong: if_cong)

lemma kept_dispatchDb [simp]:
  "map (\<lambda>r. (gmail_message_id r, tenant_message r, ff_conversation_url r)) (rowsOf (dispatchDb d ms)) =
   map (\<lambda>r. (gmail_message_id r, tenant_message r, ff_conversation_url r)) (rowsOf d)"
  by (induction ms arbitrary: d) simp_all

lemma kept_catchBlock [simp]:
  "map (\<lambda>r. (gmail_message_id r, tenant_message r, ff_conversation_url r))
     (rowsOf (db (fst (catchBlock s m err)))) =
   map (\<lambda>r. (gmail_message_id r, tenant_message r, ff_conversation_url r)) (rowsOf (db s))"
  by (simp add: catchBlock_eq queueMessageFailed_db)

lemma kept_processMessageResume:
  "map (\<lambda>r. (gmail_message_id r, tenant_message r, ff_conversation_url r))
     (rowsOf (db (fst (processMessageResume cfg s m out)))) =
   map (\<lambda>r. (gmail_message_id r, tenant_message r, ff_conversation_url r)) (rowsOf (db s))"
  by (simp add: processMessageResume_def Let_def queueMessageProcessed_db
      split: sum.splits option.splits)


section \<open>Properties of the poller\<close>

lemma pollMessage_cases:
  obtains (skip) r where "pollMessage cfg s g = (s, r)"
  | (insertFail) msg err where "\<not> known s (gm_id g)" "gmail_message_id msg = gm_id g"
      "insertMessage (db s) msg = Inl err"
      "pollMessage cfg s g = (call (DbInsertMessage (gm_id g)) s, Some err)"
  | (queued) msg d k qm where "\<not> known s (gm_id g)" "gmail_message_id msg = gm_id g"
      "status msg = Pending" "insertMessage (db s) msg = Inr (d, k)"
      "gmailMessageId qm = gm_id g"
      "pollMessage cfg s g =
         (queueEnqueue qm ((call (DbInsertMessage (gm_id g)) s)\<lparr>db := d\<rparr>), None)"
proof (cases "known s (gm_id g)")
  case True
  then have "pollMessage cfg s g = (s, None)"
    by (auto simp: pollMessage_def known_def Let_def)
  then show ?thesis by (rule skip)
next
  case nk: False
  then have ne: "\<not> messageExists (db s) (gm_id g)" and nq: "\<not> isInQueue (messageQueue s) (gm_id g)"
    by (simp_all add: known_def)
  show ?thesis
  proof (cases "gm_get g")
    case (Inl err)
    with ne nq have "pollMessage cfg s g = (s, Some err)"
      by (simp add: pollMessage_def Let_def)
    then show ?thesis by (rule skip)
  next
    case (Inr headers)
    define subject where "subject = orElse (headerValue headers ''Subject'') ''(no subject)''"
    define sender where "sender = orElse (headerValue headers ''From'') ''(unknown sender)''"
    define c where "c = categorizeEmail subject sender"
    define msg where "msg = \<lparr>row_id = 0, gmail_message_id = gm_id g,
        tenant_name = orElse (cat_tenantName c) ''Unknown Tenant'',
        tenant_email = cat_tenantEmail c, tenant_message = subject, our_response = None,
        status = Pending, error = None, ff_conversation_url = None\<rparr>"
    define qm where "qm = \<lparr>gmailMessageId = gm_id g,
        tenantName = orElse (cat_tenantName c) ''Unknown Tenant'',
        tenantEmail = cat_tenantEmail c, tenantMessage = subject, retryCount = 0\<rparr>"
    have unfold: "pollMessage cfg s g =
       (if cat_type c \<noteq> NEW_INQUIRY then (s, None)
        else if TEST_MODE cfg \<and> \<not> includesStr (orElse (cat_tenantName c) ''Unknown'') (TEST_SENDER_NAME cfg)
        then (s, None)
        else (case dbInsertMessage msg s of
                (s1, Some err) \<Rightarrow> (s1, Some err)
              | (s1, None) \<Rightarrow> (queueEnqueue qm s1, None)))"
      using ne nq Inr
      by (simp add: pollMessage_def Let_def subject_def sender_def c_def msg_def qm_def)
    show ?thesis
    proof (cases "cat_type c \<noteq> NEW_INQUIRY \<or> (TEST_MODE cfg \<and>
        \<not> includesStr (orElse (cat_tenantName c) ''Unknown'') (TEST_SENDER_NAME cfg))")
      case True
      with unfold have "pollMessage cfg s g = (s, None)" by auto
      then show ?thesis by (rule skip)
    next
      case False
      with unfold have u: "pollMessage cfg s g =
          (case dbInsertMessage msg s of
                (s1, Some err) \<Rightarrow> (s1, Some err)
              | (s1, None) \<Rightarrow> (queueEnqueue qm s1, None))"
        by auto
      have mi: "gmail_message_id msg = gm_id g" "status msg = Pending" "gmailMessageId qm = gm_id g"
        by (simp_all add: msg_def qm_def)
      show ?thesis
      proof (cases "insertMessage (db s) msg")
        case (Inl err)
        with u mi have "pollMessage cfg s g = (call (DbInsertMessage (gm_id g)) s, Some err)"
          by (simp add: dbInsertMessage_def Let_def)
        from insertFail[OF nk mi(1) Inl this] show ?thesis .
      next
        case (Inr p)
        obtain d k where p: "p = (d, k)" by (cases p)
        with u mi Inr have "pollMessage cfg s g =
            (queueEnqueue qm ((call (DbInsertMessage (gm_id g)) s)\<lparr>db := d\<rparr>), None)"
          by (simp add: dbInsertMessage_def Let_def)
        from queued[OF nk mi(1) mi(2) Inr[unfolded p] mi(3) this] show ?thesis .
      qed
    qed
  qed
qed

lemma ids_dispatchDb [simp]:
  "map gmail_message_id (rowsOf (dispatchDb d ms)) = map gmail_message_id (rowsOf d)"
proof (induction ms arbitrary: d)
  case Nil
  then show ?case by simp
next
  case (Cons m ms)
  then show ?case by (simp add: rowsOf_updateStatus o_def cong: if_cong)
qed

lemma messageExists_ids:
  "map gmail_message_id (rowsOf d') = map gmail_message_id (rowsOf d) \<Longrightarrow>
     messageExists d' i = messageExists d i"
  by (metis messageExists_iff set_map)

lemma listenerEffects_no_intake:
  "DbInsertMessage i \<notin> set (concat (map listenerEffects evs)) \<and>
   QueueEnqueue i \<notin> set (concat (map listenerEffects evs))"
proof (induction evs)
  case Nil
  then show ?case by simp
next
  case (Cons ev evs)
  then show ?case by (cases ev) simp_all
qed

lemma rows_filter_ids:
  assumes "map gmail_message_id xs = map gmail_message_id ys"
  shows "length (filter (\<lambda>r. gmail_message_id r = i) xs) =
         length (filter (\<lambda>r. gmail_message_id r = i) ys)"
proof -
  have c: "length (filter (\<lambda>r. gmail_message_id r = i) zs) =
      count_list (map gmail_message_id zs) i" for zs
    by (induction zs) auto
  show ?thesis
    by (simp only: c assms)
qed

text \<open>One iteration of the poller's loop leaves alone what is known.\<close>

lemma pollMessage_known:
  assumes "pollMessage cfg s g = (s1, r)"
  shows "(\<forall>i. known s i \<longrightarrow> known s1 i)
    \<and> (\<exists>new. effects s1 = effects s @ new \<and>
          (\<forall>i. known s i \<longrightarrow> DbInsertMessage i \<notin> set new \<and> QueueEnqueue i \<notin> set new))
    \<and> (\<forall>i. known s i \<longrightarrow>
          length (filter (\<lambda>r. gmail_message_id r = i) (rowsOf (db s1))) =
          length (filter (\<lambda>r. gmail_message_id r = i) (rowsOf (db s)))
          \<and> filter (\<lambda>m. gmailMessageId m = i) (queue (messageQueue s1)) =
            filter (\<lambda>m. gmailMessageId m = i) (queue (messageQueue s)))"
proof (cases rule: pollMessage_cases[of cfg s g])
  case (skip r')
  with assms have "s1 = s" by simp
  then show ?thesis by simp
next
  case (insertFail msg err)
  with assms have s1: "s1 = call (DbInsertMessage (gm_id g)) s" by simp
  have "\<forall>i. known s i \<longrightarrow> DbInsertMessage i \<notin> set [DbInsertMessage (gm_id g)] \<and>
          QueueEnqueue i \<notin> set [DbInsertMessage (gm_id g)]"
    using insertFail(1) by auto
  then show ?thesis
    unfolding s1 by (simp add: known_def)
next
  case (queued msg d k qm)
  with assms have s1: "s1 = queueEnqueue qm ((call (DbInsertMessage (gm_id g)) s)\<lparr>db := d\<rparr>)"
    by simp
  from insertMessage_ids[OF queued(4)] queued(2) obtain row where
    row: "rowsOf d = rowsOf (db s) @ [row]" "gmail_message_id row = gm_id g"
    by auto
  have ids: "map gmail_message_id (rowsOf (db s1)) = map gmail_message_id (rowsOf (db s)) @ [gm_id g]"
    by (simp add: s1 queueEnqueue_fields row)
  have q: "queue (messageQueue s1) = queue (messageQueue s) @ [qm\<lparr>retryCount := 0\<rparr>]"
    by (simp add: s1 queueEnqueue_fields)
  have eff: "effects s1 = effects s @ [DbInsertMessage (gm_id g), QueueEnqueue (gm_id g)] @
      concat (map listenerEffects (snd (enqueue (messageQueue s) qm)))"
    by (simp add: s1 queueEnqueue_fields queued(5))
  have a: "\<forall>i. known s i \<longrightarrow> known s1 i"
    using ids q by (auto simp: known_def messageExists_iff isInQueue_def list_ex_iff
        simp flip: set_map)
  have b: "\<exists>new. effects s1 = effects s @ new \<and>
          (\<forall>i. known s i \<longrightarrow> DbInsertMessage i \<notin> set new \<and> QueueEnqueue i \<notin> set new)"
    using eff listenerEffects_no_intake queued(1) by auto
  have c: "\<forall>i. known s i \<longrightarrow>
          length (filter (\<lambda>r. gmail_message_id r = i) (rowsOf (db s1))) =
          length (filter (\<lambda>r. gmail_message_id r = i) (rowsOf (db s)))
          \<and> filter (\<lambda>m. gmailMessageId m = i) (queue (messageQueue s1)) =
            filter (\<lambda>m. gmailMessageId m = i) (queue (messageQueue s))"
  proof (intro allI impI)
    fix i
    assume "known s i"
    with queued(1) have ne: "i \<noteq> gm_id g" by auto
    have "map gmail_message_id (rowsOf (db s1)) = map gmail_message_id (rowsOf (db s) @ [row])"
      using ids row(2) by simp
    from rows_filter_ids[OF this, of i] ne row(2)
    have "length (filter (\<lambda>r. gmail_message_id r = i) (rowsOf (db s1))) =
          length (filter (\<lambda>r. gmail_message_id r = i) (rowsOf (db s)))"
      by simp
    moreover have "filter (\<lambda>m. gmailMessageId m = i) (queue (messageQueue s1)) =
            filter (\<lambda>m. gmailMessageId m = i) (queue (messageQueue s))"
      using ne queued(5) by (simp add: q)
    ultimately show "length (filter (\<lambda>r. gmail_message_id r = i) (rowsOf (db s1))) =
          length (filter (\<lambda>r. gmail_message_id r = i) (rowsOf (db s)))
          \<and> filter (\<lambda>m. gmailMessageId m = i) (queue (messageQueue s1)) =
            filter (\<lambda>m. gmailMessageId m = i) (queue (messageQueue s))"
      by simp
  qed
  show ?thesis
    by (rule conjI[OF a conjI[OF b c]])
qed

lemma leavesKnown_refl: "leavesKnown s s"
  by (simp add: leavesKnown_def)

lemma leavesKnown_trans:
  assumes "leavesKnown s s1" "leavesKnown s1 s2"
  shows "leavesKnown s s2"
proof -
  from assms(1) obtain new1 where 1: "\<forall>i. known s i \<longrightarrow> known s1 i"
    "effects s1 = effects s @ new1"
    "\<forall>i. known s i \<longrightarrow> DbInsertMessage i \<notin> set new1 \<and> QueueEnqueue i \<notin> set new1"
    "\<forall>i. known s i \<longrightarrow>
            length (filter (\<lambda>r. gmail_message_id r = i) (rowsOf (db s1))) =
            length (filter (\<lambda>r. gmail_message_id r = i) (rowsOf (db s)))
            \<and> filter (\<lambda>m. gmailMessageId m = i) (queue (messageQueue s1)) =
              filter (\<lambda>m. gmailMessageId m = i) (queue (messageQueue s))"
    unfolding leavesKnown_def by blast
  from assms(2) obtain new2 where 2: "\<forall>i. known s1 i \<longrightarrow> known s2 i"
    "effects s2 = effects s1 @ new2"
    "\<forall>i. known s1 i \<longrightarrow> DbInsertMessage i \<notin> set new2 \<and> QueueEnqueue i \<notin> set new2"
    "\<forall>i. known s1 i \<longrightarrow>
            length (filter (\<lambda>r. gmail_message_id r = i) (rowsOf (db s2))) =
            length (filter (\<lambda>r. gmail_message_id r = i) (rowsOf (db s1)))
            \<and> filter (\<lambda>m. gmailMessageId m = i) (queue (messageQueue s2)) =
              filter (\<lambda>m. gmailMessageId m = i) (queue (messageQueue s1))"
    unfolding leavesKnown_def by blast
  have a: "\<forall>i. known s i \<longrightarrow> known s2 i"
    using 1(1) 2(1) by blast
  have b: "effects s2 = effects s @ (new1 @ new2)"
    using 1(2) 2(2) by simp
  have c: "\<forall>i. known s i \<longrightarrow> DbInsertMessage i \<notin> set (new1 @ new2) \<and> QueueEnqueue i \<notin> set (new1 @ new2)"
    using 1(1) 1(3) 2(3) by auto
  have d: "\<forall>i. known s i \<longrightarrow>
            length (filter (\<lambda>r. gmail_message_id r = i) (rowsOf (db s2))) =
            length (filter (\<lambda>r. gmail_message_id r = i) (rowsOf (db s)))
            \<and> filter (\<lambda>m. gmailMessageId m = i) (queue (messageQueue s2)) =
              filter (\<lambda>m. gmailMessageId m = i) (queue (messageQueue s))"
    using 1(1) 1(4) 2(4) by simp
  show ?thesis
    unfolding leavesKnown_def using a b c d by blast
qed

lemma pollMessage_leavesKnown: "leavesKnown s (fst (pollMessage cfg s g))"
  unfolding leavesKnown_def
  by (rule pollMessage_known[of cfg s g _ "snd (pollMessage cfg s g)"]) simp

lemma pollMessages_leavesKnown: "leavesKnown s (fst (pollMessages cfg s gs))"
proof (induction gs arbitrary: s)
  case Nil
  then show ?case by (simp add: leavesKnown_refl)
next
  case (Cons g gs)
  obtain s1 r where p: "pollMessage cfg s g = (s1, r)" by (cases "pollMessage cfg s g")
  from pollMessage_leavesKnown[of s cfg g] p have 1: "leavesKnown s s1" by simp
  show ?case
  proof (cases r)
    case None
    with p have "fst (pollMessages cfg s (g # gs)) = fst (pollMessages cfg s1 gs)" by simp
    with leavesKnown_trans[OF 1 Cons.IH[of s1]] show ?thesis by simp
  next
    case (Some err)
    with p have "fst (pollMessages cfg s (g # gs)) = s1" by simp
    with 1 show ?thesis by simp
  qed
qed

lemma call_leavesKnown:
  "(\<forall>i. e \<noteq> DbInsertMessage i \<and> e \<noteq> QueueEnqueue i) \<Longrightarrow> leavesKnown s (call e s)"
  by (auto simp: leavesKnown_def known_def)

lemma checkGmail_leavesKnown: "leavesKnown s (checkGmail cfg s listing)"
proof (cases listing)
  case (Inl err)
  then show ?thesis by (simp add: checkGmail_def call_leavesKnown)
next
  case (Inr messages)
  obtain s1 r where p: "pollMessages cfg s messages = (s1, r)"
    by (cases "pollMessages cfg s messages")
  from pollMessages_leavesKnown[of s cfg messages] p have 1: "leavesKnown s s1" by simp
  show ?thesis
  proof (cases "messages = []")
    case True
    with Inr show ?thesis by (simp add: checkGmail_def leavesKnown_refl)
  next
    case False
    show ?thesis
    proof (cases r)
      case None
      with Inr False p 1 show ?thesis by (simp add: checkGmail_def)
    next
      case (Some err)
      have "leavesKnown s1 (call (NotifySystemError err ''Failed to check Gmail for new messages'') s1)"
        by (simp add: call_leavesKnown)
      from leavesKnown_trans[OF 1 this] Inr False p Some show ?thesis
        by (simp add: checkGmail_def)
    qed
  qed
qed


section \<open>The invariant is kept\<close>

lemma statuses_updateStatus:
  "statuses (updateStatus d j st err) i =
     (if i = j then map (\<lambda>a. st) (statuses d i) else statuses d i)"
proof -
  have "map status (filter (\<lambda>r. gmail_message_id r = i)
          (map (\<lambda>r. if gmail_message_id r = j then r\<lparr>status := st, error := orNull err\<rparr> else r) xs)) =
        (if i = j then map (\<lambda>a. st) (map status (filter (\<lambda>r. gmail_message_id r = i) xs))
         else map status (filter (\<lambda>r. gmail_message_id r = i) xs))" for xs
    by (induction xs) auto
  from this[of "rowsOf d"] show ?thesis
    unfolding statuses_def rowsOf_updateStatus .
qed

lemma statuses_cong:
  assumes "map (\<lambda>r. (gmail_message_id r, status r)) (rowsOf d') =
           map (\<lambda>r. (gmail_message_id r, status r)) (rowsOf d)"
  shows "statuses d' i = statuses d i"
proof -
  have aux: "map status (filter (\<lambda>r. gmail_message_id r = i) xs) =
        map snd (filter (\<lambda>p. fst p = i) (map (\<lambda>r. (gmail_message_id r, status r)) xs))" for xs
    by (induction xs) auto
  show ?thesis
    unfolding statuses_def by (simp only: aux assms)
qed

lemma statuses_afterResponse [simp]: "statuses (updateResponse d j t) i = statuses d i"
  by (rule statuses_cong) simp

lemma dbUpdateStatus_transitions:
  "transitions (dbUpdateStatus i st err s) =
     transitions s @ map (\<lambda>a. (i, a, st)) (statuses (db s) i)"
  by (simp add: statuses_def o_def)

lemma dispatchTransitions_statuses:
  "dispatchTransitions d [m] = map (\<lambda>a. (gmailMessageId m, a, Processing)) (statuses d (gmailMessageId m))"
  by (simp add: statuses_def o_def)

lemma extends_refl: "extends s s"
  by (simp add: extends_def)

lemma extends_trans: "extends s s1 \<Longrightarrow> extends s1 s2 \<Longrightarrow> extends s s2"
  by (fastforce simp: extends_def)

lemma extends_same: "transitions s1 = transitions s \<Longrightarrow> extends s s1"
  by (simp add: extends_def)

text \<open>Handing over the head of a list of waiting items.\<close>

lemma dispatch_waiting:
  assumes "distinct (map gmailMessageId ms)" "waiting d ms"
  shows "statusInv (dispatchDb d (take 1 ms)) ms"
    and "\<forall>t\<in>set (dispatchTransitions d (take 1 ms)). allowedTransition (snd t)"
proof -
  show "statusInv (dispatchDb d (take 1 ms)) ms"
  proof (cases ms)
    case Nil
    then show ?thesis by (simp add: statusInv_def)
  next
    case (Cons h t)
    with assms(1) have "gmailMessageId h \<notin> gmailMessageId ` set t"
      by simp
    then have "\<forall>m\<in>set t. gmailMessageId m \<noteq> gmailMessageId h"
      by (metis imageI)
    with assms(2) Cons show ?thesis
      by (auto simp: statusInv_def waiting_def statuses_updateStatus)
  qed
  show "\<forall>t\<in>set (dispatchTransitions d (take 1 ms)). allowedTransition (snd t)"
  proof (cases ms)
    case Nil
    then show ?thesis by simp
  next
    case (Cons h t)
    with assms(2) have "set (statuses d (gmailMessageId h)) \<subseteq> {Pending, Failed}"
      by (simp add: waiting_def)
    then have "\<forall>a\<in>set (statuses d (gmailMessageId h)). allowedTransition (a, Processing)"
      by auto
    then show ?thesis
      unfolding Cons by (simp add: dispatchTransitions_statuses del: dispatchTransitions.simps)
  qed
qed
lemma messageFailed_head_full:
  assumes "queue q = h # t" "gmailMessageId h = i"
  shows "fst (messageFailed q i err) =
     (let ms = (if maxRetries q \<le> int (Suc (retryCount h)) then t
                else t @ [h\<lparr>retryCount := Suc (retryCount h)\<rparr>])
      in q\<lparr>queue := ms, processing := ms \<noteq> []\<rparr>)"
  using assms
  by (auto simp: messageFailed_def Let_def processNext_def split: list.splits)

lemma messageProcessed_head_full:
  assumes "queue q = h # t" "gmailMessageId h = i"
  shows "fst (messageProcessed q i) = q\<lparr>queue := t, processing := t \<noteq> []\<rparr>"
  using assms
  by (auto simp: messageProcessed_def Let_def processNext_def split: list.splits)

lemma isInQueue_head: "queue q = h # t \<Longrightarrow> gmailMessageId h = i \<Longrightarrow> isInQueue q i"
  by (simp add: isInQueue_def)

lemma oneInFlight_take: "oneInFlight (q\<lparr>queue := ms, processing := ms \<noteq> []\<rparr>, take 1 ms)"
  by (cases ms) (simp_all add: oneInFlight_def)

text \<open>
  The state after a signal to the queue that leaves the waiting items \<open>ms\<close> and hands
  over the first of them.
\<close>

lemma handover_inv:
  assumes "messageQueue s1 = q\<lparr>queue := ms, processing := ms \<noteq> []\<rparr>"
    and "suspended s1 = take 1 ms"
    and "db s1 = dispatchDb d (take 1 ms)"
    and "distinct (map gmailMessageId ms)"
    and "waiting d ms"
  shows "sysInv s1"
proof -
  have "oneInFlight (messageQueue s1, suspended s1)"
    unfolding assms(1,2) by (rule oneInFlight_take)
  moreover have "distinct (map gmailMessageId (queue (messageQueue s1)))"
    unfolding assms(1) using assms(4) by simp
  moreover have "statusInv (db s1) (queue (messageQueue s1))"
    unfolding assms(1,3) using dispatch_waiting(1)[OF assms(4,5)] by simp
  ultimately show ?thesis
    by (simp add: sysInv_def)
qed

lemma catchBlock_inv:
  assumes q: "queue (messageQueue sk) = h # t" and su: "suspended sk = []"
    and d: "distinct (map gmailMessageId (h # t))"
    and st: "statusInv (db sk) (h # t)"
  shows "sysInv (fst (catchBlock sk h err)) \<and> extends sk (fst (catchBlock sk h err))"
proof -
  let ?i = "gmailMessageId h"
  let ?d2 = "updateStatus (db sk) ?i Failed (Some (message err))"
  let ?s3 = "call (errorNotification err h) (dbUpdateStatus ?i Failed (Some (message err)) (call CloseBrowser sk))"
  let ?ms = "if maxRetries (messageQueue sk) \<le> int (Suc (retryCount h)) then t
             else t @ [h\<lparr>retryCount := Suc (retryCount h)\<rparr>]"
  let ?s4 = "fst (catchBlock sk h err)"
  have s4: "?s4 = queueMessageFailed ?i err ?s3"
    by (simp add: catchBlock_eq)
  have inq: "isInQueue (messageQueue ?s3) ?i"
    using isInQueue_head[OF q refl] by simp
  have mq: "fst (messageFailed (messageQueue ?s3) ?i err) =
      (messageQueue sk)\<lparr>queue := ?ms, processing := ?ms \<noteq> []\<rparr>"
    using messageFailed_head_full[OF q refl, of err] by (simp add: Let_def)
  from d have others: "\<forall>m\<in>set t. gmailMessageId m \<noteq> ?i"
    by (metis distinct.simps(2) imageI list.simps(9) set_map)
  from st have head: "set (statuses (db sk) ?i) \<subseteq> {Processing}" and tl: "waiting (db sk) t"
    by (simp_all add: statusInv_def)
  have w: "waiting ?d2 ?ms"
    using tl others by (auto simp: waiting_def statuses_updateStatus)
  have dm: "distinct (map gmailMessageId ?ms)"
    using d by auto
  have 1: "messageQueue ?s4 = (messageQueue sk)\<lparr>queue := ?ms, processing := ?ms \<noteq> []\<rparr>"
    unfolding s4 queueMessageFailed_fields(1) mq ..
  have 2: "suspended ?s4 = take 1 ?ms"
    unfolding s4 queueMessageFailed_fields(3) mq using inq su by simp
  have 3: "db ?s4 = dispatchDb ?d2 (take 1 ?ms)"
    unfolding s4 queueMessageFailed_db(1) mq using inq by simp
  have 4: "transitions ?s4 = transitions sk @
      (map (\<lambda>a. (?i, a, Failed)) (statuses (db sk) ?i) @ dispatchTransitions ?d2 (take 1 ?ms))"
    unfolding s4 queueMessageFailed_db(2) mq using inq
    by (simp add: statuses_def o_def)
  have "\<forall>a\<in>set (statuses (db sk) ?i). allowedTransition (a, Failed)"
    using head by auto
  with dispatch_waiting(2)[OF dm w] 4 have "extends sk ?s4"
    by (auto simp: extends_def)
  with handover_inv[OF 1 2 3 dm w] show ?thesis by simp
qed
lemma completed_inv:
  assumes q: "queue (messageQueue sk) = h # t" and su: "suspended sk = []"
    and d: "distinct (map gmailMessageId (h # t))"
    and st: "statusInv (db sk) (h # t)"
    and fin: "st' = Sent \<or> st' = Pending"
    and s8: "messageQueue s8 = messageQueue sk" "suspended s8 = suspended sk"
      "db s8 = updateStatus (db sk) (gmailMessageId h) st' None"
      "transitions s8 = transitions sk @
         map (\<lambda>a. (gmailMessageId h, a, st')) (statuses (db sk) (gmailMessageId h))"
  shows "sysInv (queueMessageProcessed (gmailMessageId h) s8)
         \<and> extends sk (queueMessageProcessed (gmailMessageId h) s8)"
proof -
  let ?i = "gmailMessageId h"
  let ?d2 = "updateStatus (db sk) ?i st' None"
  let ?s9 = "queueMessageProcessed ?i s8"
  have inq: "isInQueue (messageQueue s8) ?i"
    using isInQueue_head[OF q refl] s8(1) by simp
  have mq: "fst (messageProcessed (messageQueue s8) ?i) =
      (messageQueue sk)\<lparr>queue := t, processing := t \<noteq> []\<rparr>"
    using messageProcessed_head_full[OF q refl] s8(1) by simp
  from d have others: "\<forall>m\<in>set t. gmailMessageId m \<noteq> ?i"
    by (metis distinct.simps(2) imageI list.simps(9) set_map)
  from st have head: "set (statuses (db sk) ?i) \<subseteq> {Processing}" and tl: "waiting (db sk) t"
    by (simp_all add: statusInv_def)
  have w: "waiting ?d2 t"
    using tl others by (auto simp: waiting_def statuses_updateStatus)
  have dm: "distinct (map gmailMessageId t)"
    using d by auto
  have 1: "messageQueue ?s9 = (messageQueue sk)\<lparr>queue := t, processing := t \<noteq> []\<rparr>"
    unfolding queueMessageProcessed_fields(1) mq ..
  have 2: "suspended ?s9 = take 1 t"
    unfolding queueMessageProcessed_fields(3) mq using inq su s8(2) by simp
  have 3: "db ?s9 = dispatchDb ?d2 (take 1 t)"
    unfolding queueMessageProcessed_db(1) mq using inq s8(3) by simp
  have 4: "transitions ?s9 = transitions sk @
      (map (\<lambda>a. (?i, a, st')) (statuses (db sk) ?i) @ dispatchTransitions ?d2 (take 1 t))"
    unfolding queueMessageProcessed_db(2) mq using inq s8(3,4) by simp
  have "\<forall>a\<in>set (statuses (db sk) ?i). allowedTransition (a, st')"
    using head fin by auto
  with dispatch_waiting(2)[OF dm w] 4 have "extends sk ?s9"
    by (auto simp: extends_def)
  with handover_inv[OF 1 2 3 dm w] show ?thesis by simp
qed

text \<open>The two ways in which \<^verbatim>\<open>processMessage\<close> ends.\<close>

lemma resume_shape:
  "(\<exists>sk err. processMessageResume cfg s m out = catchBlock sk m err
       \<and> (\<exists>pre. responsesOnly s sk pre))
   \<or> (\<exists>sk st'. (st' = Sent \<or> st' = Pending) \<and> (\<exists>pre. responsesOnly s sk pre)
       \<and> (processMessageResume cfg s m out =
             (queueMessageProcessed (gmailMessageId m)
                (dbUpdateStatus (gmailMessageId m) st' None sk), None)
           \<or> (\<exists>e. processMessageResume cfg s m out =
             (queueMessageProcessed (gmailMessageId m)
                (call e (dbUpdateStatus (gmailMessageId m) st' None sk)), None))))"
proof (cases "extractLatestMessage out")
  case (Inl err)
  then have "processMessageResume cfg s m out = catchBlock s m err"
    by (simp add: processMessageResume_def)
  with responsesOnly_refl show ?thesis by blast
next
  case ex: (Inr d)
  show ?thesis
  proof (cases "generateResponse out")
    case (Inl err)
    have "\<exists>sk. processMessageResume cfg s m out = catchBlock sk m err
        \<and> (\<exists>pre. responsesOnly s sk pre)"
      apply (simp add: processMessageResume_def ex Inl Let_def split del: if_split)
      apply (rule exI, rule conjI, rule refl)
      apply (intro responsesOnly_intros)
      done
    then show ?thesis by blast
  next
    case gen: (Inr t)
    show ?thesis
    proof (cases "AUTO_SEND_ENABLED cfg")
      case auto: True
      show ?thesis
      proof (cases "sendResponse out")
        case (Some err)
        have "\<exists>sk. processMessageResume cfg s m out = catchBlock sk m err
            \<and> (\<exists>pre. responsesOnly s sk pre)"
          apply (simp add: processMessageResume_def ex gen auto Some Let_def split del: if_split)
          apply (rule exI, rule conjI, rule refl)
          apply (intro responsesOnly_intros)
          done
        then show ?thesis by blast
      next
        case sent: None
        show ?thesis
        proof (cases "closeBrowser out")
          case (Some err)
          have "\<exists>sk. processMessageResume cfg s m out = catchBlock sk m err
              \<and> (\<exists>pre. responsesOnly s sk pre)"
            apply (simp add: processMessageResume_def ex gen auto sent Some Let_def split del: if_split)
            apply (rule exI, rule conjI, rule refl)
            apply (intro responsesOnly_intros)
            done
          then show ?thesis by blast
        next
          case None
          have "\<exists>sk. (\<exists>pre. responsesOnly s sk pre) \<and> (\<exists>e. processMessageResume cfg s m out =
             (queueMessageProcessed (gmailMessageId m)
                (call e (dbUpdateStatus (gmailMessageId m) Sent None sk)), None))"
            apply (simp add: processMessageResume_def ex gen auto sent None Let_def split del: if_split)
            apply (rule exI, rule conjI)
             prefer 2
             apply (rule exI, rule refl)
            apply (intro responsesOnly_intros)
            done
          then show ?thesis by blast
        qed
      qed
    next
      case manual: False
      show ?thesis
      proof (cases "closeBrowser out")
        case (Some err)
        have "\<exists>sk. processMessageResume cfg s m out = catchBlock sk m err
            \<and> (\<exists>pre. responsesOnly s sk pre)"
          apply (simp add: processMessageResume_def ex gen manual Some Let_def split del: if_split)
          apply (rule exI, rule conjI, rule refl)
          apply (intro responsesOnly_intros)
          done
        then show ?thesis by blast
      next
        case None
        have "\<exists>sk. (\<exists>pre. responsesOnly s sk pre) \<and> processMessageResume cfg s m out =
             (queueMessageProcessed (gmailMessageId m)
                (dbUpdateStatus (gmailMessageId m) Pending None sk), None)"
          apply (simp add: processMessageResume_def ex gen manual None Let_def split del: if_split)
          apply (rule exI, rule conjI)
           prefer 2
           apply (rule refl)
          apply (intro responsesOnly_intros)
          done
        then show ?thesis by blast
      qed
    qed
  qed
qed
lemma statusInv_cong:
  assumes "\<And>i. statuses d' i = statuses d i"
  shows "statusInv d' ms = statusInv d ms"
  by (simp add: statusInv_def waiting_def assms split: list.splits)

lemma responsesOnly_mid:
  assumes "responsesOnly s sk pre"
  shows "messageQueue sk = messageQueue s" "suspended sk = suspended s"
    "transitions sk = transitions s" "statusInv (db sk) ms = statusInv (db s) ms"
proof -
  from assms show "messageQueue sk = messageQueue s" "suspended sk = suspended s"
    "transitions sk = transitions s"
    by (simp_all add: responsesOnly_def)
  from assms have "map (\<lambda>r. (gmail_message_id r, status r)) (rowsOf (db sk)) =
      map (\<lambda>r. (gmail_message_id r, status r)) (rowsOf (db s))"
    by (simp add: responsesOnly_def)
  from statuses_cong[OF this] show "statusInv (db sk) ms = statusInv (db s) ms"
    by (rule statusInv_cong)
qed

lemma extends_from:
  "transitions sk = transitions s \<Longrightarrow> extends sk s1 \<Longrightarrow> extends s s1"
  by (simp add: extends_def)

lemma resume_inv:
  assumes inv: "sysInv s0"
  shows "sysInv (sysStep cfg s0 (Resume k out)) \<and> extends s0 (sysStep cfg s0 (Resume k out))"
proof (cases "k < length (suspended s0)")
  case False
  then show ?thesis using inv by (simp add: extends_refl)
next
  case True
  from inv have of: "oneInFlight (messageQueue s0, suspended s0)"
    and d0: "distinct (map gmailMessageId (queue (messageQueue s0)))"
    and st0: "statusInv (db s0) (queue (messageQueue s0))"
    by (simp_all add: sysInv_def)
  from of True obtain h t where q0: "queue (messageQueue s0) = h # t" and su0: "suspended s0 = [h]"
    by (auto simp: oneInFlight_def split: list.splits)
  with True have k: "k = 0" by simp
  define s where "s = s0\<lparr>suspended := []\<rparr>"
  have step: "sysStep cfg s0 (Resume k out) = fst (processMessageResume cfg s h out)"
    using True by (simp add: k su0 s_def splice1_def)
  have q: "queue (messageQueue s) = h # t" and su: "suspended s = []"
    and tr: "transitions s = transitions s0" and db: "db s = db s0"
    by (simp_all add: s_def q0)
  from d0 q0 have d: "distinct (map gmailMessageId (h # t))" by simp
  from st0 q0 db have st: "statusInv (db s) (h # t)" by simp
  from resume_shape[of cfg s h out] consider
    (failed) sk err pre where "processMessageResume cfg s h out = catchBlock sk h err"
      "responsesOnly s sk pre"
    | (completed) sk st' pre where "st' = Sent \<or> st' = Pending" "responsesOnly s sk pre"
      "processMessageResume cfg s h out =
         (queueMessageProcessed (gmailMessageId h) (dbUpdateStatus (gmailMessageId h) st' None sk), None)"
    | (notified) sk st' pre e where "st' = Sent \<or> st' = Pending" "responsesOnly s sk pre"
      "processMessageResume cfg s h out =
         (queueMessageProcessed (gmailMessageId h)
            (call e (dbUpdateStatus (gmailMessageId h) st' None sk)), None)"
    by blast
  then show ?thesis
  proof cases
    case failed
    note ro = responsesOnly_mid[OF failed(2)]
    have "sysInv (fst (catchBlock sk h err)) \<and> extends sk (fst (catchBlock sk h err))"
      by (rule catchBlock_inv[OF _ _ d]) (simp_all add: ro q su st)
    then show ?thesis
      unfolding step failed(1) using extends_from[of sk s0] ro(3) tr by simp
  next
    case completed
    note ro = responsesOnly_mid[OF completed(2)]
    let ?s8 = "dbUpdateStatus (gmailMessageId h) st' None sk"
    have "sysInv (queueMessageProcessed (gmailMessageId h) ?s8)
         \<and> extends sk (queueMessageProcessed (gmailMessageId h) ?s8)"
      by (rule completed_inv[OF _ _ d _ completed(1)])
         (simp_all add: ro q su st dbUpdateStatus_transitions del: dbUpdateStatus_fields(5))
    then show ?thesis
      unfolding step completed(3) using extends_from[of sk s0] ro(3) tr by simp
  next
    case notified
    note ro = responsesOnly_mid[OF notified(2)]
    let ?s8 = "call e (dbUpdateStatus (gmailMessageId h) st' None sk)"
    have "sysInv (queueMessageProcessed (gmailMessageId h) ?s8)
         \<and> extends sk (queueMessageProcessed (gmailMessageId h) ?s8)"
      by (rule completed_inv[OF _ _ d _ notified(1)])
         (simp_all add: ro q su st dbUpdateStatus_transitions del: dbUpdateStatus_fields(5))
    then show ?thesis
      unfolding step notified(3) using extends_from[of sk s0] ro(3) tr by simp
  qed
qed

lemma insertMessage_statuses:
  assumes "insertMessage d msg = Inr (d1, k)"
  shows "statuses d1 i =
     statuses d i @ (if i = gmail_message_id msg then [status msg] else [])"
    and "statuses d (gmail_message_id msg) = []"
proof -
  from assms obtain t where t: "d = Some t"
    "\<not> list_ex (\<lambda>r. gmail_message_id r = gmail_message_id msg) (rows t)"
    by (auto simp: insertMessage_def split: option.splits if_splits)
  with assms show "statuses d1 i =
     statuses d i @ (if i = gmail_message_id msg then [status msg] else [])"
    by (auto simp: insertMessage_def Let_def statuses_def rowsOf_def)
  from t show "statuses d (gmail_message_id msg) = []"
    by (auto simp: statuses_def rowsOf_def list_ex_iff filter_empty_conv)
qed

lemma enqueue_full:
  assumes "oneInFlight (q, out)"
  shows "fst (enqueue q m) = q\<lparr>queue := queue q @ [m\<lparr>retryCount := 0\<rparr>], processing := True\<rparr>"
    and "dispatched (snd (enqueue q m)) = (if queue q = [] then [m\<lparr>retryCount := 0\<rparr>] else [])"
  using assms
  by (auto simp: enqueue_def oneInFlight_def Let_def processNext_def split: list.splits)

lemma pollMessage_inv:
  assumes inv: "sysInv s"
  shows "sysInv (fst (pollMessage cfg s g)) \<and> extends s (fst (pollMessage cfg s g))"
proof (cases rule: pollMessage_cases[of cfg s g])
  case (skip r)
  with inv show ?thesis by (simp add: extends_refl)
next
  case (insertFail msg err)
  with inv show ?thesis by (simp add: sysInv_def extends_def)
next
  case (queued msg d k qm)
  let ?j = "gm_id g"
  let ?q = "messageQueue s"
  let ?m0 = "qm\<lparr>retryCount := 0\<rparr>"
  let ?si = "(call (DbInsertMessage ?j) s)\<lparr>db := d\<rparr>"
  let ?s1 = "queueEnqueue qm ?si"
  from inv have of: "oneInFlight (?q, suspended s)"
    and d0: "distinct (map gmailMessageId (queue ?q))"
    and st0: "statusInv (db s) (queue ?q)"
    by (simp_all add: sysInv_def)
  from queued(1) have nq: "?j \<notin> gmailMessageId ` set (queue ?q)"
    by (auto simp: known_def isInQueue_def list_ex_iff)
  have stat: "statuses d i = statuses (db s) i @ (if i = ?j then [Pending] else [])" for i
    using insertMessage_statuses(1)[OF queued(4), of i] queued(2,3) by simp
  have none: "statuses (db s) ?j = []"
    using insertMessage_statuses(2)[OF queued(4)] queued(2) by simp
  have old: "statuses d (gmailMessageId m) = statuses (db s) (gmailMessageId m)"
    if "m \<in> set (queue ?q)" for m
  proof -
    from that nq have "gmailMessageId m \<noteq> ?j"
      by (metis imageI)
    with stat[of "gmailMessageId m"] show ?thesis by simp
  qed
  have new: "statuses d ?j = [Pending]"
    using stat[of ?j] none by simp
  have mq: "messageQueue ?s1 = ?q\<lparr>queue := queue ?q @ [?m0], processing := True\<rparr>"
    using enqueue_full(1)[OF of, of qm] by (simp add: queueEnqueue_fields)
  have su: "suspended ?s1 = suspended s @ (if queue ?q = [] then [?m0] else [])"
    using enqueue_full(2)[OF of, of qm] by (simp add: queueEnqueue_fields)
  have db: "db ?s1 = dispatchDb d (if queue ?q = [] then [?m0] else [])"
    using enqueue_full(2)[OF of, of qm] by (simp add: queueEnqueue_fields)
  have tr: "transitions ?s1 = transitions s @
      dispatchTransitions d (if queue ?q = [] then [?m0] else [])"
    using enqueue_full(2)[OF of, of qm] by (simp add: queueEnqueue_fields)
  have dist: "distinct (map gmailMessageId (queue ?q @ [?m0]))"
    using d0 nq queued(5) by simp
  have "sysInv ?s1 \<and> extends s ?s1"
  proof (cases "queue ?q")
    case Nil
    with of have su0: "suspended s = []"
      by (simp add: oneInFlight_def)
    have w: "waiting d [?m0]"
      by (simp add: waiting_def queued(5) new)
    have d1: "distinct (map gmailMessageId [?m0])" by simp
    have 1: "messageQueue ?s1 = ?q\<lparr>queue := [?m0], processing := [?m0] \<noteq> []\<rparr>"
      using mq Nil by simp
    have 2: "suspended ?s1 = take 1 [?m0]"
      using su Nil su0 by simp
    have 3: "db ?s1 = dispatchDb d (take 1 [?m0])"
      using db Nil by simp
    have "transitions ?s1 = transitions s @ dispatchTransitions d (take 1 [?m0])"
      using tr Nil by simp
    with dispatch_waiting(2)[OF d1 w] have "extends s ?s1"
      unfolding extends_def by blast
    with handover_inv[OF 1 2 3 d1 w] show ?thesis by simp
  next
    case (Cons h t)
    with of have su0: "suspended s = [h]" and pr: "processing ?q"
      by (simp_all add: oneInFlight_def)
    from st0 Cons have head: "set (statuses (db s) (gmailMessageId h)) \<subseteq> {Processing}"
      and tl: "waiting (db s) t"
      by (simp_all add: statusInv_def)
    have "oneInFlight (messageQueue ?s1, suspended ?s1)"
      using mq su Cons su0 by (simp add: oneInFlight_def)
    moreover have "distinct (map gmailMessageId (queue (messageQueue ?s1)))"
      using mq dist by simp
    moreover have "statusInv (db ?s1) (queue (messageQueue ?s1))"
    proof -
      have "set (statuses d (gmailMessageId h)) \<subseteq> {Processing}"
        using head old[of h] Cons by simp
      moreover have "waiting d (t @ [?m0])"
        using tl old Cons new queued(5) by (auto simp: waiting_def)
      ultimately show ?thesis
        using mq db Cons by (simp add: statusInv_def)
    qed
    moreover have "extends s ?s1"
      using tr Cons by (simp add: extends_def)
    ultimately show ?thesis by (simp add: sysInv_def)
  qed
  with queued(6) show ?thesis by simp
qed

lemma pollMessages_inv:
  "sysInv s \<Longrightarrow> sysInv (fst (pollMessages cfg s gs)) \<and> extends s (fst (pollMessages cfg s gs))"
proof (induction gs arbitrary: s)
  case Nil
  then show ?case by (simp add: extends_refl)
next
  case (Cons g gs)
  obtain s1 r where p: "pollMessage cfg s g = (s1, r)" by (cases "pollMessage cfg s g")
  from pollMessage_inv[OF Cons.prems, of cfg g] p have 1: "sysInv s1" "extends s s1" by simp_all
  show ?case
  proof (cases r)
    case None
    with p have e: "fst (pollMessages cfg s (g # gs)) = fst (pollMessages cfg s1 gs)" by simp
    from Cons.IH[OF 1(1)] extends_trans[OF 1(2)] show ?thesis
      unfolding e by blast
  next
    case (Some err)
    with p have "fst (pollMessages cfg s (g # gs)) = s1" by simp
    with 1 show ?thesis by simp
  qed
qed

lemma call_inv: "sysInv s \<Longrightarrow> sysInv (call e s) \<and> extends s (call e s)"
  by (simp add: sysInv_def extends_def)

lemma checkGmail_inv:
  assumes "sysInv s"
  shows "sysInv (checkGmail cfg s listing) \<and> extends s (checkGmail cfg s listing)"
proof (cases listing)
  case (Inl err)
  with call_inv[OF assms] show ?thesis by (simp add: checkGmail_def)
next
  case (Inr messages)
  obtain s1 r where p: "pollMessages cfg s messages = (s1, r)"
    by (cases "pollMessages cfg s messages")
  from pollMessages_inv[OF assms, of cfg messages] p have 1: "sysInv s1" "extends s s1"
    by simp_all
  show ?thesis
  proof (cases "messages = []")
    case True
    with Inr assms show ?thesis by (simp add: checkGmail_def extends_refl)
  next
    case False
    show ?thesis
    proof (cases r)
      case None
      with Inr False p 1 show ?thesis by (simp add: checkGmail_def)
    next
      case (Some err)
      from call_inv[OF 1(1), of "NotifySystemError err ''Failed to check Gmail for new messages''"]
        extends_trans[OF 1(2)] Inr False p Some
      show ?thesis by (simp add: checkGmail_def)
    qed
  qed
qed

lemma sysStep_inv:
  "sysInv s \<Longrightarrow> sysInv (sysStep cfg s st) \<and> extends s (sysStep cfg s st)"
proof (cases st)
  case (Tick listing)
  assume "sysInv s"
  from checkGmail_inv[OF this, of cfg listing] Tick show ?thesis by simp
next
  case (Resume k out)
  assume "sysInv s"
  from resume_inv[OF this, of cfg k out] Resume show ?thesis by simp
qed

lemma sysRun_inv:
  "sysInv s \<Longrightarrow> sysInv (sysRun cfg s steps) \<and> extends s (sysRun cfg s steps)"
proof (induction steps arbitrary: s)
  case Nil
  then show ?case by (simp add: sysRun_def extends_refl)
next
  case (Cons st steps)
  from sysStep_inv[OF Cons.prems, of cfg st] have 1: "sysInv (sysStep cfg s st)"
    "extends s (sysStep cfg s st)" by simp_all
  from Cons.IH[OF 1(1)] extends_trans[OF 1(2)] show ?case
    by (simp add: sysRun_def)
qed

lemma startSystem_inv: "sysInv (startSystem d n)"
  by (simp add: sysInv_def startSystem_def newMessageQueue_def oneInFlight_def statusInv_def)


section \<open>Bounded retry\<close>

text \<open>
  Claim C1. Whatever calls are made on a queue created with a bound \<open>n\<close>, a queued item's
  \<open>retryCount\<close> never exceeds \<open>n\<close> (for \<open>n \<ge> 0\<close>), and an item given up carries
  \<open>retryCount = n\<close> (for \<open>n \<ge> 1\<close>). A \<^verbatim>\<open>messageFailed\<close> that finds the item either
  reaches the bound, and then removes the item and emits the terminal failure exactly
  once, or moves the item to the tail and emits no terminal failure; a
  \<^verbatim>\<open>messageFailed\<close> for an item that is gone changes nothing. With \<open>n = 3\<close> and a
  failure on every attempt the item survives two failures and is removed by the third,
  with one terminal failure; a fourth call is without effect. In the whole system, when
  the generation fails on every attempt of the inquiry \<^verbatim>\<open>m1\<close>, \<^verbatim>\<open>messageFailed\<close> is
  called three times, the queue ends empty with nothing suspended, and one notification
  of the exhausted retries is sent.
\<close>

theorem C1_bounded_retry:
  "(0 \<le> n \<longrightarrow>
      (\<forall>m\<in>set (queue (fst (applyCalls (newMessageQueue n) cs))). int (retryCount m) \<le> n))
   \<and> (1 \<le> n \<longrightarrow>
      (\<forall>m err. EmitMessageFailed m err \<in> set (snd (applyCalls (newMessageQueue n) cs))
         \<longrightarrow> int (retryCount m) = n))
   \<and> (\<forall>i err k. findIndex (\<lambda>m. gmailMessageId m = i)
                   (queue (fst (applyCalls (newMessageQueue n) cs))) = Some k \<longrightarrow>
        (let q = fst (applyCalls (newMessageQueue n) cs);
             msg = (queue q ! k)\<lparr>retryCount := Suc (retryCount (queue q ! k))\<rparr>;
             (q', evs) = messageFailed q i err
         in if n \<le> int (retryCount msg)
            then queue q' = splice1 k (queue q) \<and>
                 filter isTerminalFailure evs = [EmitMessageFailed msg err]
            else queue q' = splice1 k (queue q) @ [msg] \<and>
                 filter isTerminalFailure evs = []))
   \<and> (\<forall>i err. \<not> isInQueue (fst (applyCalls (newMessageQueue n) cs)) i \<longrightarrow>
        messageFailed (fst (applyCalls (newMessageQueue n) cs)) i err =
          (fst (applyCalls (newMessageQueue n) cs), []))
   \<and> (let f = CallFailed ''m1'' (Error ''boom'');
           run = (\<lambda>fs. applyCalls (newMessageQueue 3) (CallEnqueue m1 # fs))
       in queue (fst (run [f])) = [m1\<lparr>retryCount := 1\<rparr>] \<and>
          queue (fst (run [f, f])) = [m1\<lparr>retryCount := 2\<rparr>] \<and>
          filter isTerminalFailure (snd (run [f, f])) = [] \<and>
          queue (fst (run [f, f, f])) = [] \<and>
          filter isTerminalFailure (snd (run [f, f, f])) =
            [EmitMessageFailed (m1\<lparr>retryCount := 3\<rparr>) (Error ''boom'')] \<and>
          run [f, f, f, f] = run [f, f, f])
   \<and> (let s' = sysRun approvalConfig (startSystem (Some emptyTable) 3)
                   [Tick (Inr [mail1]), Resume 0 llmDown, Resume 0 llmDown, Resume 0 llmDown]
       in queue (messageQueue s') = [] \<and> suspended s' = []
          \<and> length (filter isQueueFailure (effects s')) = 3
          \<and> filter isSystemError (effects s') =
               [NotifySystemError (Error ''LLM API error: 500 Internal Server Error'')
                  ''Max retries exceeded for message from Nancy E''])"
proof -
  let ?q = "fst (applyCalls (newMessageQueue n) cs)"
  have rb: "retryBounded ?q"
    by (rule applyCalls_retryBounded[OF newMessageQueue_retryBounded])
  have mr: "maxRetries ?q = n"
    by (simp add: newMessageQueue_def)
  have a: "0 \<le> n \<longrightarrow> (\<forall>m\<in>set (queue ?q). int (retryCount m) \<le> n)"
    using rb mr by (fastforce simp: retryBounded_def)
  have b: "1 \<le> n \<longrightarrow>
      (\<forall>m err. EmitMessageFailed m err \<in> set (snd (applyCalls (newMessageQueue n) cs))
         \<longrightarrow> int (retryCount m) = n)"
    using applyCalls_terminal[OF newMessageQueue_retryBounded, of _ _ n cs]
    by (simp add: newMessageQueue_def)
  have c: "\<forall>i err k. findIndex (\<lambda>m. gmailMessageId m = i) (queue ?q) = Some k \<longrightarrow>
        (let q = ?q;
             msg = (queue q ! k)\<lparr>retryCount := Suc (retryCount (queue q ! k))\<rparr>;
             (q', evs) = messageFailed q i err
         in if n \<le> int (retryCount msg)
            then queue q' = splice1 k (queue q) \<and>
                 filter isTerminalFailure evs = [EmitMessageFailed msg err]
            else queue q' = splice1 k (queue q) @ [msg] \<and>
                 filter isTerminalFailure evs = [])"
    using messageFailed_step[of _ ?q] mr by (simp add: Let_def)
  have d: "\<forall>i err. \<not> isInQueue ?q i \<longrightarrow> messageFailed ?q i err = (?q, [])"
    by (simp add: messageFailed_absent)
  have e: "let f = CallFailed ''m1'' (Error ''boom'');
           run = (\<lambda>fs. applyCalls (newMessageQueue 3) (CallEnqueue m1 # fs))
       in queue (fst (run [f])) = [m1\<lparr>retryCount := 1\<rparr>] \<and>
          queue (fst (run [f, f])) = [m1\<lparr>retryCount := 2\<rparr>] \<and>
          filter isTerminalFailure (snd (run [f, f])) = [] \<and>
          queue (fst (run [f, f, f])) = [] \<and>
          filter isTerminalFailure (snd (run [f, f, f])) =
            [EmitMessageFailed (m1\<lparr>retryCount := 3\<rparr>) (Error ''boom'')] \<and>
          run [f, f, f, f] = run [f, f, f]"
    by (simp add: m1_def newMessageQueue_def enqueue_def messageFailed_def processNext_def
        Let_def splice1_def)
  have f: "let s' = sysRun approvalConfig (startSystem (Some emptyTable) 3)
                   [Tick (Inr [mail1]), Resume 0 llmDown, Resume 0 llmDown, Resume 0 llmDown]
       in queue (messageQueue s') = [] \<and> suspended s' = []
          \<and> length (filter isQueueFailure (effects s')) = 3
          \<and> filter isSystemError (effects s') =
               [NotifySystemError (Error ''LLM API error: 500 Internal Server Error'')
                  ''Max retries exceeded for message from Nancy E'']"
    by code_simp
  show ?thesis
    by (rule conjI[OF a conjI[OF b conjI[OF c conjI[OF d conjI[OF e f]]]]])
qed

theorem C1_bounded_retry_witness:
  "(0::int) \<le> 3
   \<and> queue (fst (applyCalls (newMessageQueue 3)
        [CallEnqueue m1, CallFailed ''m1'' (Error ''boom''), CallFailed ''m1'' (Error ''boom'')]))
      = [m1\<lparr>retryCount := 2\<rparr>]
   \<and> int (retryCount (m1\<lparr>retryCount := 2\<rparr>)) \<le> 3
   \<and> queue (fst (messageFailed (fst (applyCalls (newMessageQueue 3)
        [CallEnqueue m1, CallFailed ''m1'' (Error ''boom''), CallFailed ''m1'' (Error ''boom'')]))
        ''m1'' (Error ''boom''))) = []"
proof -
  let ?cs = "[CallEnqueue m1, CallFailed ''m1'' (Error ''boom''), CallFailed ''m1'' (Error ''boom'')]"
  have q: "fst (applyCalls (newMessageQueue 3) ?cs) =
      \<lparr>queue = [m1\<lparr>retryCount := 2\<rparr>], processing = True, maxRetries = 3\<rparr>"
    by (simp add: m1_def newMessageQueue_def enqueue_def messageFailed_def processNext_def
        Let_def splice1_def)
  have z: "(0::int) \<le> 3"
    by simp
  from C1_bounded_retry[of 3 ?cs]
  have "0 \<le> (3::int) \<longrightarrow>
      (\<forall>m\<in>set (queue (fst (applyCalls (newMessageQueue 3) ?cs))). int (retryCount m) \<le> 3)"
    by (rule conjunct1)
  from rev_mp[OF z this] have b: "int (retryCount (m1\<lparr>retryCount := 2\<rparr>)) \<le> 3"
    unfolding q by simp
  have c: "queue (fst (applyCalls (newMessageQueue 3) ?cs)) = [m1\<lparr>retryCount := 2\<rparr>]"
    unfolding q by simp
  have e: "queue (fst (messageFailed (fst (applyCalls (newMessageQueue 3) ?cs))
        ''m1'' (Error ''boom''))) = []"
    unfolding q
    by (simp add: m1_def messageFailed_def processNext_def Let_def splice1_def)
  show ?thesis
    by (rule conjI[OF z conjI[OF c conjI[OF b e]]])
qed

section \<open>At most one item with the orchestrator\<close>

text \<open>
  Claim C5. Starting from a new queue, after any sequence of \<^verbatim>\<open>enqueue\<close>,
  \<^verbatim>\<open>messageProcessed\<close> and \<^verbatim>\<open>messageFailed\<close> calls in which completion and failure
  are signalled only for an item handed over and not answered yet, at most one item is
  handed over and unanswered; it is the head of the queue, and the queue's \<open>processing\<close>
  flag is set exactly when there is such an item. In every run of the whole system, at
  most one invocation of \<^verbatim>\<open>processMessage\<close> is suspended, and it is the one for the head
  of the queue.
\<close>

theorem C5_at_most_one_dispatched:
  "(runCalls (newMessageQueue n, []) cs = Some (q, out) \<longrightarrow>
      length out \<le> 1 \<and> (processing q \<longleftrightarrow> out \<noteq> [])
      \<and> (queue q = [] \<longleftrightarrow> out = []) \<and> out = take 1 (queue q))
   \<and> length (suspended (sysRun cfg (startSystem d k) steps)) \<le> 1
   \<and> suspended (sysRun cfg (startSystem d k) steps) =
       take 1 (queue (messageQueue (sysRun cfg (startSystem d k) steps)))"
proof -
  have 1: "runCalls (newMessageQueue n, []) cs = Some (q, out) \<longrightarrow>
      length out \<le> 1 \<and> (processing q \<longleftrightarrow> out \<noteq> [])
      \<and> (queue q = [] \<longleftrightarrow> out = []) \<and> out = take 1 (queue q)"
  proof
    assume "runCalls (newMessageQueue n, []) cs = Some (q, out)"
    from oneInFlight_runCalls[OF oneInFlight_new this] have "oneInFlight (q, out)" .
    then show "length out \<le> 1 \<and> (processing q \<longleftrightarrow> out \<noteq> [])
      \<and> (queue q = [] \<longleftrightarrow> out = []) \<and> out = take 1 (queue q)"
      by (auto simp: oneInFlight_def split: list.splits)
  qed
  let ?s = "sysRun cfg (startSystem d k) steps"
  from sysRun_inv[OF startSystem_inv, of cfg d k steps]
  have "oneInFlight (messageQueue ?s, suspended ?s)"
    by (simp add: sysInv_def)
  then have 2: "length (suspended ?s) \<le> 1"
    and 3: "suspended ?s = take 1 (queue (messageQueue ?s))"
    by (auto simp: oneInFlight_def split: list.splits)
  show ?thesis
    by (rule conjI[OF 1 conjI[OF 2 3]])
qed

theorem C5_at_most_one_dispatched_witness:
  "runCalls (newMessageQueue 3, [])
     [CallEnqueue m1, CallEnqueue m2, CallFailed ''m1'' (Error ''boom'')]
   = Some (\<lparr>queue = [m2, m1\<lparr>retryCount := 1\<rparr>], processing = True, maxRetries = 3\<rparr>, [m2])
   \<and> length [m2] \<le> 1"
proof -
  have h: "runCalls (newMessageQueue 3, [])
     [CallEnqueue m1, CallEnqueue m2, CallFailed ''m1'' (Error ''boom'')]
   = Some (\<lparr>queue = [m2, m1\<lparr>retryCount := 1\<rparr>], processing = True, maxRetries = 3\<rparr>, [m2])"
    by (simp add: m1_def m2_def newMessageQueue_def enqueue_def messageFailed_def
        processNext_def Let_def splice1_def)
  from C5_at_most_one_dispatched[THEN conjunct1, THEN mp, OF h] have "length [m2] \<le> 1"
    by (rule conjunct1)
  with h show ?thesis
    by (rule conjI)
qed

section \<open>Classification\<close>

text \<open>
  Claim C10. A subject that contains \<^verbatim>\<open>Booking Inquiry from\<close> or
  \<^verbatim>\<open>Property Owner Message\<close> is classified \<open>NEW_INQUIRY\<close>, whatever else it contains;
  the classification is \<open>REPLY\<close> exactly when neither inquiry pattern occurs and one of
  the reply markers \<^verbatim>\<open>New reply from\<close>, \<^verbatim>\<open>reply from\<close>, \<^verbatim>\<open>Re:\<close> does.
\<close>

theorem C10_inquiry_before_reply:
  "(includesStr subject ''Booking Inquiry from'' \<or> includesStr subject ''Property Owner Message''
      \<longrightarrow> cat_type (categorizeEmail subject sender) = NEW_INQUIRY)
   \<and> (cat_type (categorizeEmail subject sender) = REPLY \<longleftrightarrow>
        \<not> includesStr subject ''Booking Inquiry from''
        \<and> \<not> includesStr subject ''Property Owner Message''
        \<and> (includesStr subject ''New reply from'' \<or> includesStr subject ''reply from''
           \<or> includesStr subject ''Re:''))"
  by (auto simp: categorizeEmail_def Let_def)

theorem C10_inquiry_before_reply_witness:
  "includesStr ''Re: Booking Inquiry from Nancy E'' ''Booking Inquiry from''
   \<and> includesStr ''Re: Booking Inquiry from Nancy E'' ''Re:''
   \<and> cat_type (categorizeEmail ''Re: Booking Inquiry from Nancy E'' ''a <b@c.d>'') = NEW_INQUIRY"
proof -
  have h: "includesStr ''Re: Booking Inquiry from Nancy E'' ''Booking Inquiry from''"
    by simp
  have r: "includesStr ''Re: Booking Inquiry from Nancy E'' ''Re:''"
    by simp
  show ?thesis
    using h r C10_inquiry_before_reply[of "''Re: Booking Inquiry from Nancy E''" "''a <b@c.d>''"]
    by blast
qed

section \<open>Fair requeue and first-in, first-out\<close>

text \<open>
  Claim C9. Let the queue hold distinct identifiers, with its head \<open>A\<close> handed over and
  \<open>B\<close> behind it. When \<open>A\<close> fails with retries remaining, \<open>A\<close> is moved to the tail,
  and in every continuation in which completion and failure are signalled only for the
  item handed over and \<open>B\<close> does not fail, \<open>A\<close> is handed over again only after the
  completion of \<open>B\<close> was signalled. In the same way, for \<open>B\<close> ahead of \<open>C\<close> in the
  queue, as long as \<open>B\<close> does not fail, \<open>C\<close> is handed over only after the completion
  of \<open>B\<close> was signalled.
\<close>

theorem C9_fair_requeue:
  "(oneInFlight (q, out) \<and> queue q = A # rest \<and> B \<in> set rest
      \<and> distinct (map gmailMessageId (queue q))
      \<and> int (retryCount A) + 1 < maxRetries q
      \<and> runCalls (q, out) (CallFailed (gmailMessageId A) err # cs) = Some (q', out')
      \<and> (\<forall>e. CallFailed (gmailMessageId B) e \<notin> set cs)
    \<longrightarrow> queue (fst (messageFailed q (gmailMessageId A) err))
          = rest @ [A\<lparr>retryCount := Suc (retryCount A)\<rparr>]
        \<and> ((\<exists>m\<in>set out'. gmailMessageId m = gmailMessageId A)
             \<longrightarrow> CallProcessed (gmailMessageId B) \<in> set cs))
   \<and> (oneInFlight (q, out) \<and> queue q = pre @ B # mid @ C # post
      \<and> distinct (map gmailMessageId (queue q))
      \<and> runCalls (q, out) cs = Some (q', out')
      \<and> (\<forall>e. CallFailed (gmailMessageId B) e \<notin> set cs)
    \<longrightarrow> ((\<exists>m\<in>set out'. gmailMessageId m = gmailMessageId C)
             \<longrightarrow> CallProcessed (gmailMessageId B) \<in> set cs))"
proof (intro conjI impI; elim conjE)
  assume inv: "oneInFlight (q, out)" and q: "queue q = A # rest" and B: "B \<in> set rest"
    and d: "distinct (map gmailMessageId (queue q))"
    and r: "int (retryCount A) + 1 < maxRetries q"
  from messageFailed_head[OF q refl, of err] r
  show "queue (fst (messageFailed q (gmailMessageId A) err))
          = rest @ [A\<lparr>retryCount := Suc (retryCount A)\<rparr>]"
    by simp
next
  assume inv: "oneInFlight (q, out)" and q: "queue q = A # rest" and B: "B \<in> set rest"
    and d: "distinct (map gmailMessageId (queue q))"
    and r: "int (retryCount A) + 1 < maxRetries q"
    and run: "runCalls (q, out) (CallFailed (gmailMessageId A) err # cs) = Some (q', out')"
    and nf: "\<forall>e. CallFailed (gmailMessageId B) e \<notin> set cs"
    and x: "\<exists>m\<in>set out'. gmailMessageId m = gmailMessageId A"
  let ?c = "CallFailed (gmailMessageId A) err"
  from run have ok: "permitted out ?c"
    by (auto split: if_splits)
  with run have run': "runCalls (fst (applyCall q ?c), answered ?c out @ dispatched (snd (applyCall q ?c))) cs
         = Some (q', out')"
    by (simp add: split_beta)
  from q d have na: "gmailMessageId A \<notin> gmailMessageId ` set rest"
    by auto
  with B have ne: "gmailMessageId B \<noteq> gmailMessageId A"
    by (metis imageI)
  from messageFailed_head[OF q refl, of err] r
  have q1: "queue (fst (applyCall q ?c)) = rest @ [A\<lparr>retryCount := Suc (retryCount A)\<rparr>]"
    by simp
  have f: "firstOf (gmailMessageId B) (gmailMessageId A) (queue (fst (applyCall q ?c)))"
    unfolding q1 by (rule firstOf_append[OF firstOf_member[OF B refl na]])
  from completes_before[OF oneInFlight_step[OF inv ok] f ne run' nf x]
  show "CallProcessed (gmailMessageId B) \<in> set cs" .
next
  assume inv: "oneInFlight (q, out)" and q: "queue q = pre @ B # mid @ C # post"
    and d: "distinct (map gmailMessageId (queue q))"
    and run: "runCalls (q, out) cs = Some (q', out')"
    and nf: "\<forall>e. CallFailed (gmailMessageId B) e \<notin> set cs"
    and x: "\<exists>m\<in>set out'. gmailMessageId m = gmailMessageId C"
  from d q have ne: "gmailMessageId B \<noteq> gmailMessageId C"
    by auto
  have "C \<in> set (mid @ C # post)" by simp
  from firstOf_between[OF ne d[unfolded q] this]
  have f: "firstOf (gmailMessageId B) (gmailMessageId C) (queue q)"
    by (simp add: q)
  from completes_before[OF inv f ne run nf x]
  show "CallProcessed (gmailMessageId B) \<in> set cs" .
qed

theorem C9_fair_requeue_witness:
  "oneInFlight (queue12, [m1]) \<and> queue queue12 = m1 # [m2] \<and> m2 \<in> set [m2]
   \<and> distinct (map gmailMessageId (queue queue12))
   \<and> int (retryCount m1) + 1 < maxRetries queue12
   \<and> runCalls (queue12, [m1]) (CallFailed (gmailMessageId m1) (Error ''boom'') # [CallProcessed ''m2''])
       = Some (\<lparr>queue = [m1\<lparr>retryCount := 1\<rparr>], processing = True, maxRetries = 3\<rparr>,
               [m1\<lparr>retryCount := 1\<rparr>])
   \<and> queue (fst (messageFailed queue12 (gmailMessageId m1) (Error ''boom'')))
       = [m2] @ [m1\<lparr>retryCount := Suc (retryCount m1)\<rparr>]
   \<and> CallProcessed (gmailMessageId m2) \<in> set [CallProcessed ''m2'']"
proof -
  let ?q' = "\<lparr>queue = [m1\<lparr>retryCount := 1\<rparr>], processing = True, maxRetries = 3\<rparr>"
  have 1: "oneInFlight (queue12, [m1])"
    by (simp add: oneInFlight_def queue12_def)
  have 2: "queue queue12 = m1 # [m2]"
    by (simp add: queue12_def)
  have 3: "m2 \<in> set [m2]"
    by simp
  have 4: "distinct (map gmailMessageId (queue queue12))"
    by (simp add: queue12_def m1_def m2_def)
  have 5: "int (retryCount m1) + 1 < maxRetries queue12"
    by (simp add: queue12_def m1_def)
  have 6: "runCalls (queue12, [m1]) (CallFailed (gmailMessageId m1) (Error ''boom'') # [CallProcessed ''m2''])
       = Some (?q', [m1\<lparr>retryCount := 1\<rparr>])"
    by code_simp
  have 7: "\<forall>e. CallFailed (gmailMessageId m2) e \<notin> set [CallProcessed ''m2'']"
    by simp
  have 8: "\<exists>m\<in>set [m1\<lparr>retryCount := 1\<rparr>]. gmailMessageId m = gmailMessageId m1"
    by simp
  from C9_fair_requeue[of queue12 "[m1]" m1 "[m2]" m2 "Error ''boom''" "[CallProcessed ''m2'']"
      ?q' "[m1\<lparr>retryCount := 1\<rparr>]"] 1 2 3 4 5 6 7 8
  have "queue (fst (messageFailed queue12 (gmailMessageId m1) (Error ''boom'')))
       = [m2] @ [m1\<lparr>retryCount := Suc (retryCount m1)\<rparr>]"
    and "CallProcessed (gmailMessageId m2) \<in> set [CallProcessed ''m2'']"
    by blast+
  with 1 2 3 4 5 6 show ?thesis by blast
qed

section \<open>The error path of the pipeline\<close>

text \<open>
  Claim C6. The \<^verbatim>\<open>try\<close> block of \<^verbatim>\<open>processMessage\<close> throws at five points: the
  extraction, the generation, with automatic sending the delivery and closing the browser
  after it, and without automatic sending closing the browser after the approval
  notification. \<^verbatim>\<open>processMessage\<close> rejects with \<open>err\<close> exactly when one of them throws
  \<open>err\<close>. Whenever it rejects with \<open>err\<close>, from whatever state and for whatever item, it
  has closed the browser, written the status \<open>Failed\<close> with the error's message to the
  store, sent the notification that goes with the message (\<^verbatim>\<open>notifyLLMError\<close> when it
  contains \<^verbatim>\<open>LLM\<close>, else \<^verbatim>\<open>notifyAuthExpired\<close> when it contains \<^verbatim>\<open>auth\<close> or
  \<^verbatim>\<open>login\<close>, else \<^verbatim>\<open>notifyPlaywrightError\<close>) and called \<^verbatim>\<open>messageFailed\<close> on the
  queue, in this order. The queue is the one that \<^verbatim>\<open>messageFailed\<close> returns; every
  row of the item changes to \<open>Failed\<close>; and unless the queue hands the same item over
  again at once, the rows of the item end with status \<open>Failed\<close> and the message in
  \<^verbatim>\<open>error\<close> (\<^verbatim>\<open>NULL\<close> for an empty message).
\<close>

theorem C6_error_path:
  "((extractLatestMessage out = Inl err
     \<or> (\<exists>d. extractLatestMessage out = Inr d \<and> generateResponse out = Inl err)
     \<or> (\<exists>d t. extractLatestMessage out = Inr d \<and> generateResponse out = Inr t
           \<and> AUTO_SEND_ENABLED cfg \<and> sendResponse out = Some err)
     \<or> (\<exists>d t. extractLatestMessage out = Inr d \<and> generateResponse out = Inr t
           \<and> AUTO_SEND_ENABLED cfg \<and> sendResponse out = None \<and> closeBrowser out = Some err)
     \<or> (\<exists>d t. extractLatestMessage out = Inr d \<and> generateResponse out = Inr t
           \<and> \<not> AUTO_SEND_ENABLED cfg \<and> closeBrowser out = Some err))
    \<longleftrightarrow> snd (processMessageResume cfg s m out) = Some err)
   \<and> (snd (processMessageResume cfg s m out) = Some err \<longrightarrow>
        messageQueue (fst (processMessageResume cfg s m out)) =
          fst (messageFailed (messageQueue s) (gmailMessageId m) err)
        \<and> (\<exists>pre post. effects (fst (processMessageResume cfg s m out)) = effects s @ pre @
              [CloseBrowser,
               DbUpdateStatus (gmailMessageId m) Failed (Some (message err)),
               (if includesStr (message err) ''LLM'' then NotifyLLMError err (tenantName m)
                else if includesStr (message err) ''auth'' \<or> includesStr (message err) ''login''
                then NotifyAuthExpired
                else NotifyPlaywrightError err (gmailMessageId m)),
               QueueMessageFailed (gmailMessageId m) err] @ post)
        \<and> (\<exists>later. transitions (fst (processMessageResume cfg s m out)) = transitions s @
              map (\<lambda>r. (gmailMessageId m, status r, Failed))
                (filter (\<lambda>r. gmail_message_id r = gmailMessageId m) (rowsOf (db s))) @ later)
        \<and> (queue (fst (messageFailed (messageQueue s) (gmailMessageId m) err)) = [] \<or>
            gmailMessageId (hd (queue (fst (messageFailed (messageQueue s) (gmailMessageId m) err))))
              \<noteq> gmailMessageId m \<longrightarrow>
            (\<forall>r\<in>set (rowsOf (db (fst (processMessageResume cfg s m out)))).
               gmail_message_id r = gmailMessageId m \<longrightarrow>
                 status r = Failed \<and> error r = orNull (Some (message err)))))"
proof (rule conjI)
  show "(extractLatestMessage out = Inl err
     \<or> (\<exists>d. extractLatestMessage out = Inr d \<and> generateResponse out = Inl err)
     \<or> (\<exists>d t. extractLatestMessage out = Inr d \<and> generateResponse out = Inr t
           \<and> AUTO_SEND_ENABLED cfg \<and> sendResponse out = Some err)
     \<or> (\<exists>d t. extractLatestMessage out = Inr d \<and> generateResponse out = Inr t
           \<and> AUTO_SEND_ENABLED cfg \<and> sendResponse out = None \<and> closeBrowser out = Some err)
     \<or> (\<exists>d t. extractLatestMessage out = Inr d \<and> generateResponse out = Inr t
           \<and> \<not> AUTO_SEND_ENABLED cfg \<and> closeBrowser out = Some err))
    \<longleftrightarrow> snd (processMessageResume cfg s m out) = Some err"
  proof
    assume "extractLatestMessage out = Inl err
     \<or> (\<exists>d. extractLatestMessage out = Inr d \<and> generateResponse out = Inl err)
     \<or> (\<exists>d t. extractLatestMessage out = Inr d \<and> generateResponse out = Inr t
           \<and> AUTO_SEND_ENABLED cfg \<and> sendResponse out = Some err)
     \<or> (\<exists>d t. extractLatestMessage out = Inr d \<and> generateResponse out = Inr t
           \<and> AUTO_SEND_ENABLED cfg \<and> sendResponse out = None \<and> closeBrowser out = Some err)
     \<or> (\<exists>d t. extractLatestMessage out = Inr d \<and> generateResponse out = Inr t
           \<and> \<not> AUTO_SEND_ENABLED cfg \<and> closeBrowser out = Some err)"
    from resume_failure[OF this, of s m] obtain sk where
      "processMessageResume cfg s m out = catchBlock sk m err"
      by blast
    then show "snd (processMessageResume cfg s m out) = Some err"
      by (simp add: catchBlock_result)
  next
    assume "snd (processMessageResume cfg s m out) = Some err"
    then show "extractLatestMessage out = Inl err
     \<or> (\<exists>d. extractLatestMessage out = Inr d \<and> generateResponse out = Inl err)
     \<or> (\<exists>d t. extractLatestMessage out = Inr d \<and> generateResponse out = Inr t
           \<and> AUTO_SEND_ENABLED cfg \<and> sendResponse out = Some err)
     \<or> (\<exists>d t. extractLatestMessage out = Inr d \<and> generateResponse out = Inr t
           \<and> AUTO_SEND_ENABLED cfg \<and> sendResponse out = None \<and> closeBrowser out = Some err)
     \<or> (\<exists>d t. extractLatestMessage out = Inr d \<and> generateResponse out = Inr t
           \<and> \<not> AUTO_SEND_ENABLED cfg \<and> closeBrowser out = Some err)"
      by (rule resume_rejects)
  qed
next
  show "snd (processMessageResume cfg s m out) = Some err \<longrightarrow>
        messageQueue (fst (processMessageResume cfg s m out)) =
          fst (messageFailed (messageQueue s) (gmailMessageId m) err)
        \<and> (\<exists>pre post. effects (fst (processMessageResume cfg s m out)) = effects s @ pre @
              [CloseBrowser,
               DbUpdateStatus (gmailMessageId m) Failed (Some (message err)),
               (if includesStr (message err) ''LLM'' then NotifyLLMError err (tenantName m)
                else if includesStr (message err) ''auth'' \<or> includesStr (message err) ''login''
                then NotifyAuthExpired
                else NotifyPlaywrightError err (gmailMessageId m)),
               QueueMessageFailed (gmailMessageId m) err] @ post)
        \<and> (\<exists>later. transitions (fst (processMessageResume cfg s m out)) = transitions s @
              map (\<lambda>r. (gmailMessageId m, status r, Failed))
                (filter (\<lambda>r. gmail_message_id r = gmailMessageId m) (rowsOf (db s))) @ later)
        \<and> (queue (fst (messageFailed (messageQueue s) (gmailMessageId m) err)) = [] \<or>
            gmailMessageId (hd (queue (fst (messageFailed (messageQueue s) (gmailMessageId m) err))))
              \<noteq> gmailMessageId m \<longrightarrow>
            (\<forall>r\<in>set (rowsOf (db (fst (processMessageResume cfg s m out)))).
               gmail_message_id r = gmailMessageId m \<longrightarrow>
                 status r = Failed \<and> error r = orNull (Some (message err))))"
  proof (rule impI)
    assume rej: "snd (processMessageResume cfg s m out) = Some err"
    from resume_failure[OF resume_rejects[OF rej], of s m] obtain sk pre where
      eq: "processMessageResume cfg s m out = catchBlock sk m err" and
      ro: "responsesOnly s sk pre"
      by blast
    from ro have q: "messageQueue sk = messageQueue s" and e: "effects sk = effects s @ pre"
      and t: "transitions sk = transitions s"
      and st: "map (\<lambda>r. (gmail_message_id r, status r)) (rowsOf (db sk)) =
            map (\<lambda>r. (gmail_message_id r, status r)) (rowsOf (db s))"
      by (simp_all add: responsesOnly_def)
    have 2: "messageQueue (fst (processMessageResume cfg s m out)) =
          fst (messageFailed (messageQueue s) (gmailMessageId m) err)"
      by (simp add: eq catchBlock_queue q)
    from catchBlock_effects[of sk m err] obtain post where
      "effects (fst (catchBlock sk m err)) = effects sk @
         [CloseBrowser, DbUpdateStatus (gmailMessageId m) Failed (Some (message err)),
          errorNotification err m, QueueMessageFailed (gmailMessageId m) err] @ post"
      by blast
    then have "effects (fst (processMessageResume cfg s m out)) = effects s @ pre @
            [CloseBrowser,
             DbUpdateStatus (gmailMessageId m) Failed (Some (message err)),
             (if includesStr (message err) ''LLM'' then NotifyLLMError err (tenantName m)
              else if includesStr (message err) ''auth'' \<or> includesStr (message err) ''login''
              then NotifyAuthExpired
              else NotifyPlaywrightError err (gmailMessageId m)),
             QueueMessageFailed (gmailMessageId m) err] @ post"
      by (simp add: eq e errorNotification_def)
    then have 3: "\<exists>pre post. effects (fst (processMessageResume cfg s m out)) = effects s @ pre @
            [CloseBrowser,
             DbUpdateStatus (gmailMessageId m) Failed (Some (message err)),
             (if includesStr (message err) ''LLM'' then NotifyLLMError err (tenantName m)
              else if includesStr (message err) ''auth'' \<or> includesStr (message err) ''login''
              then NotifyAuthExpired
              else NotifyPlaywrightError err (gmailMessageId m)),
             QueueMessageFailed (gmailMessageId m) err] @ post"
      by blast
    have "map (\<lambda>r. (gmailMessageId m, status r, Failed))
              (filter (\<lambda>r. gmail_message_id r = gmailMessageId m) (rowsOf (db sk))) =
          map (\<lambda>r. (gmailMessageId m, status r, Failed))
              (filter (\<lambda>r. gmail_message_id r = gmailMessageId m) (rowsOf (db s)))"
      by (simp only: status_transitions_cong st)
    then have 4: "\<exists>later. transitions (fst (processMessageResume cfg s m out)) = transitions s @
            map (\<lambda>r. (gmailMessageId m, status r, Failed))
              (filter (\<lambda>r. gmail_message_id r = gmailMessageId m) (rowsOf (db s))) @ later"
      using catchBlock_transitions[of sk m err] by (simp add: eq t)
    have 5: "queue (fst (messageFailed (messageQueue s) (gmailMessageId m) err)) = [] \<or>
          gmailMessageId (hd (queue (fst (messageFailed (messageQueue s) (gmailMessageId m) err))))
            \<noteq> gmailMessageId m \<longrightarrow>
          (\<forall>r\<in>set (rowsOf (db (fst (processMessageResume cfg s m out)))).
             gmail_message_id r = gmailMessageId m \<longrightarrow>
               status r = Failed \<and> error r = orNull (Some (message err)))"
      using catchBlock_rows[of sk m err] by (simp add: eq q)
    show "messageQueue (fst (processMessageResume cfg s m out)) =
          fst (messageFailed (messageQueue s) (gmailMessageId m) err)
        \<and> (\<exists>pre post. effects (fst (processMessageResume cfg s m out)) = effects s @ pre @
              [CloseBrowser,
               DbUpdateStatus (gmailMessageId m) Failed (Some (message err)),
               (if includesStr (message err) ''LLM'' then NotifyLLMError err (tenantName m)
                else if includesStr (message err) ''auth'' \<or> includesStr (message err) ''login''
                then NotifyAuthExpired
                else NotifyPlaywrightError err (gmailMessageId m)),
               QueueMessageFailed (gmailMessageId m) err] @ post)
        \<and> (\<exists>later. transitions (fst (processMessageResume cfg s m out)) = transitions s @
              map (\<lambda>r. (gmailMessageId m, status r, Failed))
                (filter (\<lambda>r. gmail_message_id r = gmailMessageId m) (rowsOf (db s))) @ later)
        \<and> (queue (fst (messageFailed (messageQueue s) (gmailMessageId m) err)) = [] \<or>
            gmailMessageId (hd (queue (fst (messageFailed (messageQueue s) (gmailMessageId m) err))))
              \<noteq> gmailMessageId m \<longrightarrow>
            (\<forall>r\<in>set (rowsOf (db (fst (processMessageResume cfg s m out)))).
               gmail_message_id r = gmailMessageId m \<longrightarrow>
                 status r = Failed \<and> error r = orNull (Some (message err))))"
      by (rule conjI[OF 2 conjI[OF 3 conjI[OF 4 5]]])
  qed
qed

theorem C6_error_path_witness:
  "extractLatestMessage llmDown = Inr petsExtracted
   \<and> generateResponse llmDown = Inl (Error ''LLM API error: 500 Internal Server Error'')
   \<and> snd (processMessageResume approvalConfig (ticked1\<lparr>suspended := []\<rparr>) queued1 llmDown)
       = Some (Error ''LLM API error: 500 Internal Server Error'')
   \<and> messageQueue (fst (processMessageResume approvalConfig (ticked1\<lparr>suspended := []\<rparr>) queued1 llmDown))
       = \<lparr>queue = [queued1\<lparr>retryCount := 1\<rparr>], processing = True, maxRetries = 3\<rparr>
   \<and> drop (length (effects ticked1))
        (effects (fst (processMessageResume approvalConfig (ticked1\<lparr>suspended := []\<rparr>) queued1 llmDown)))
       = [DbUpdateResponse ''m1'' ''Hi, is the place pet friendly?'',
          GenerateResponse ''Nancy E'' ''Hi, is the place pet friendly?''
            (Some ''noreply@furnishedfinder.com''),
          CloseBrowser,
          DbUpdateStatus ''m1'' Failed (Some ''LLM API error: 500 Internal Server Error''),
          NotifyLLMError (Error ''LLM API error: 500 Internal Server Error'') ''Nancy E'',
          QueueMessageFailed ''m1'' (Error ''LLM API error: 500 Internal Server Error''),
          DbUpdateStatus ''m1'' Processing None,
          ExtractLatestMessage]"
proof -
  let ?err = "Error ''LLM API error: 500 Internal Server Error''"
  let ?s = "ticked1\<lparr>suspended := []\<rparr>"
  have e: "extractLatestMessage llmDown = Inr petsExtracted"
    and g: "generateResponse llmDown = Inl ?err"
    by (simp_all add: llmDown_def)
  then have h: "extractLatestMessage llmDown = Inl ?err
     \<or> (\<exists>d. extractLatestMessage llmDown = Inr d \<and> generateResponse llmDown = Inl ?err)
     \<or> (\<exists>d t. extractLatestMessage llmDown = Inr d \<and> generateResponse llmDown = Inr t
           \<and> AUTO_SEND_ENABLED approvalConfig \<and> sendResponse llmDown = Some ?err)
     \<or> (\<exists>d t. extractLatestMessage llmDown = Inr d \<and> generateResponse llmDown = Inr t
           \<and> AUTO_SEND_ENABLED approvalConfig \<and> sendResponse llmDown = None
           \<and> closeBrowser llmDown = Some ?err)
     \<or> (\<exists>d t. extractLatestMessage llmDown = Inr d \<and> generateResponse llmDown = Inr t
           \<and> \<not> AUTO_SEND_ENABLED approvalConfig \<and> closeBrowser llmDown = Some ?err)"
    by blast
  note inst = C6_error_path[of llmDown ?err approvalConfig ?s queued1]
  from inst[THEN conjunct1, THEN iffD1, OF h]
  have r: "snd (processMessageResume approvalConfig ?s queued1 llmDown) = Some ?err" .
  from inst[THEN conjunct2, THEN mp, OF r]
  have "messageQueue (fst (processMessageResume approvalConfig ?s queued1 llmDown)) =
        fst (messageFailed (messageQueue ?s) (gmailMessageId queued1) ?err)"
    by (rule conjunct1)
  moreover have "fst (messageFailed (messageQueue ?s) (gmailMessageId queued1) ?err)
      = \<lparr>queue = [queued1\<lparr>retryCount := 1\<rparr>], processing = True, maxRetries = 3\<rparr>"
    by code_simp
  ultimately have q: "messageQueue (fst (processMessageResume approvalConfig ?s queued1 llmDown))
       = \<lparr>queue = [queued1\<lparr>retryCount := 1\<rparr>], processing = True, maxRetries = 3\<rparr>"
    by (rule trans)
  have f: "drop (length (effects ticked1))
        (effects (fst (processMessageResume approvalConfig ?s queued1 llmDown)))
       = [DbUpdateResponse ''m1'' ''Hi, is the place pet friendly?'',
          GenerateResponse ''Nancy E'' ''Hi, is the place pet friendly?''
            (Some ''noreply@furnishedfinder.com''),
          CloseBrowser,
          DbUpdateStatus ''m1'' Failed (Some ''LLM API error: 500 Internal Server Error''),
          NotifyLLMError (Error ''LLM API error: 500 Internal Server Error'') ''Nancy E'',
          QueueMessageFailed ''m1'' (Error ''LLM API error: 500 Internal Server Error''),
          DbUpdateStatus ''m1'' Processing None,
          ExtractLatestMessage]"
    by code_simp
  show ?thesis
    by (rule conjI[OF e conjI[OF g conjI[OF r conjI[OF q f]]]])
qed

section \<open>The approval path of the pipeline\<close>

text \<open>
  Claim C7, amended by the condition that closing the browser does not throw. With
  automatic sending disabled, when the extraction and the generation succeed and
  \<^verbatim>\<open>closeBrowser\<close> does not throw, \<^verbatim>\<open>processMessage\<close> resolves,
  having sent exactly one approval notification, which carries the extracted name and
  message, the generated text and the conversation URL, then closed the browser, written
  the status \<open>Pending\<close> and called \<^verbatim>\<open>messageProcessed\<close>; the queue is the one that
  \<^verbatim>\<open>messageProcessed\<close> returns, and unless the queue hands over an item of the same id
  at once, the rows of the item end with status \<open>Pending\<close>. In the scenario of the
  inquiry \<^verbatim>\<open>m1\<close> of Nancy E the store ends with status \<open>Pending\<close>, one approval
  notification was sent, and the queue is empty.
\<close>

theorem C7_approval_path:
  assumes "\<not> AUTO_SEND_ENABLED cfg"
    and "extractLatestMessage out = Inr d"
    and "generateResponse out = Inr t"
    and "closeBrowser out = None"
  shows "snd (processMessageResume cfg s m out) = None
    \<and> messageQueue (fst (processMessageResume cfg s m out)) =
        fst (messageProcessed (messageQueue s) (gmailMessageId m))
    \<and> (\<exists>pre post. effects (fst (processMessageResume cfg s m out)) = effects s @ pre @
          [DbUpdateResponse (gmailMessageId m) (ex_tenantMessage d),
           GenerateResponse (ex_tenantName d) (ex_tenantMessage d) (tenantEmail m),
           DbUpdateResponse (gmailMessageId m) t,
           SendResponseForApproval (ex_tenantName d) (ex_tenantMessage d) t (conversationUrl d),
           CloseBrowser,
           DbUpdateStatus (gmailMessageId m) Pending None,
           QueueMessageProcessed (gmailMessageId m)] @ post)
    \<and> filter isApproval (drop (length (effects s)) (effects (fst (processMessageResume cfg s m out))))
        = [SendResponseForApproval (ex_tenantName d) (ex_tenantMessage d) t (conversationUrl d)]
    \<and> (queue (fst (messageProcessed (messageQueue s) (gmailMessageId m))) = [] \<or>
        gmailMessageId (hd (queue (fst (messageProcessed (messageQueue s) (gmailMessageId m)))))
          \<noteq> gmailMessageId m \<longrightarrow>
        (\<forall>r\<in>set (rowsOf (db (fst (processMessageResume cfg s m out)))).
           gmail_message_id r = gmailMessageId m \<longrightarrow> status r = Pending))
    \<and> (let s' = sysRun approvalConfig (startSystem (Some emptyTable) 3)
                   [Tick (Inr [mail1]), Resume 0 petsAnswered]
       in map status (rowsOf (db s')) = [Pending]
          \<and> filter isApproval (effects s') =
               [SendResponseForApproval ''Nancy E'' ''Hi, is the place pet friendly?''
                  ''Yes, we welcome well-behaved pets...''
                  ''https://www.furnishedfinder.com/members/messages/1'']
          \<and> queue (messageQueue s') = [] \<and> suspended s' = [])"
proof -
  let ?i = "gmailMessageId m"
  let ?s1 = "if \<not> (includesStr (toLowerCase (ex_tenantName d)) (toLowerCase (tenantName m))
                  \<or> includesStr (toLowerCase (tenantName m)) (toLowerCase (ex_tenantName d)))
             then call (NotifyMessageMismatch ?i (tenantName m)) s else s"
  let ?s7 = "dbUpdateStatus ?i Pending None
              (call CloseBrowser
                (call (SendResponseForApproval (ex_tenantName d) (ex_tenantMessage d) t (conversationUrl d))
                  (dbUpdateResponse ?i t
                    (call (GenerateResponse (ex_tenantName d) (ex_tenantMessage d) (tenantEmail m))
                      (dbUpdateResponse ?i (ex_tenantMessage d) ?s1)))))"
  have eq: "processMessageResume cfg s m out = (queueMessageProcessed ?i ?s7, None)"
    using assms by (simp add: processMessageResume_def Let_def split del: if_split)
  let ?pre = "if \<not> (includesStr (toLowerCase (ex_tenantName d)) (toLowerCase (tenantName m))
                  \<or> includesStr (toLowerCase (tenantName m)) (toLowerCase (ex_tenantName d)))
              then [NotifyMessageMismatch ?i (tenantName m)] else []"
  have pre: "effects ?s1 = effects s @ ?pre" "filter isApproval ?pre = []"
    "messageQueue ?s1 = messageQueue s"
    by simp_all
  have q7: "messageQueue ?s7 = messageQueue s"
    using pre(3) by simp
  have e7: "effects ?s7 = effects s @ ?pre @
          [DbUpdateResponse ?i (ex_tenantMessage d),
           GenerateResponse (ex_tenantName d) (ex_tenantMessage d) (tenantEmail m),
           DbUpdateResponse ?i t,
           SendResponseForApproval (ex_tenantName d) (ex_tenantMessage d) t (conversationUrl d),
           CloseBrowser,
           DbUpdateStatus ?i Pending None]"
    using pre(1) by simp
  have 1: "snd (processMessageResume cfg s m out) = None"
    by (simp add: eq)
  have 2: "messageQueue (fst (processMessageResume cfg s m out)) =
        fst (messageProcessed (messageQueue s) ?i)"
    by (simp only: eq fst_conv queueMessageProcessed_fields q7)
  have e': "effects (fst (processMessageResume cfg s m out)) = effects s @ ?pre @
          [DbUpdateResponse ?i (ex_tenantMessage d),
           GenerateResponse (ex_tenantName d) (ex_tenantMessage d) (tenantEmail m),
           DbUpdateResponse ?i t,
           SendResponseForApproval (ex_tenantName d) (ex_tenantMessage d) t (conversationUrl d),
           CloseBrowser,
           DbUpdateStatus ?i Pending None,
           QueueMessageProcessed ?i] @
          concat (map listenerEffects (snd (messageProcessed (messageQueue s) ?i)))"
    by (simp only: eq fst_conv queueMessageProcessed_fields(2) e7 q7 append_assoc append_Cons append_Nil)
  then have 3: "\<exists>pre post. effects (fst (processMessageResume cfg s m out)) = effects s @ pre @
          [DbUpdateResponse ?i (ex_tenantMessage d),
           GenerateResponse (ex_tenantName d) (ex_tenantMessage d) (tenantEmail m),
           DbUpdateResponse ?i t,
           SendResponseForApproval (ex_tenantName d) (ex_tenantMessage d) t (conversationUrl d),
           CloseBrowser,
           DbUpdateStatus ?i Pending None,
           QueueMessageProcessed ?i] @ post"
    by blast
  have 4: "filter isApproval (drop (length (effects s)) (effects (fst (processMessageResume cfg s m out))))
        = [SendResponseForApproval (ex_tenantName d) (ex_tenantMessage d) t (conversationUrl d)]"
    by (simp add: e' pre(2) listenerEffects_no_approval)
  have 5: "queue (fst (messageProcessed (messageQueue s) ?i)) = [] \<or>
        gmailMessageId (hd (queue (fst (messageProcessed (messageQueue s) ?i)))) \<noteq> ?i \<longrightarrow>
        (\<forall>r\<in>set (rowsOf (db (fst (processMessageResume cfg s m out)))).
           gmail_message_id r = ?i \<longrightarrow> status r = Pending)"
  proof (rule impI)
    assume h: "queue (fst (messageProcessed (messageQueue s) ?i)) = [] \<or>
        gmailMessageId (hd (queue (fst (messageProcessed (messageQueue s) ?i)))) \<noteq> ?i"
    have "queue (fst (messageProcessed (messageQueue ?s7) ?i)) = [] \<or>
        gmailMessageId (hd (queue (fst (messageProcessed (messageQueue ?s7) ?i)))) \<noteq> ?i"
      using h by (simp only: q7)
    from queueMessageProcessed_other_rows[OF this]
    have "filter (\<lambda>r. gmail_message_id r = ?i) (rowsOf (db (fst (processMessageResume cfg s m out)))) =
          filter (\<lambda>r. gmail_message_id r = ?i) (rowsOf (db ?s7))"
      by (simp only: eq fst_conv)
    then have "set (filter (\<lambda>r. gmail_message_id r = ?i) (rowsOf (db (fst (processMessageResume cfg s m out)))))
          \<subseteq> set (rowsOf (db ?s7))"
      by simp
    moreover have "\<forall>r\<in>set (rowsOf (db ?s7)). gmail_message_id r = ?i \<longrightarrow> status r = Pending"
      by (simp only: dbUpdateStatus_fields) (auto simp: rowsOf_updateStatus split: if_splits)
    ultimately show "\<forall>r\<in>set (rowsOf (db (fst (processMessageResume cfg s m out)))).
           gmail_message_id r = ?i \<longrightarrow> status r = Pending"
      by auto
  qed
  have 6: "let s' = sysRun approvalConfig (startSystem (Some emptyTable) 3)
                   [Tick (Inr [mail1]), Resume 0 petsAnswered]
       in map status (rowsOf (db s')) = [Pending]
          \<and> filter isApproval (effects s') =
               [SendResponseForApproval ''Nancy E'' ''Hi, is the place pet friendly?''
                  ''Yes, we welcome well-behaved pets...''
                  ''https://www.furnishedfinder.com/members/messages/1'']
          \<and> queue (messageQueue s') = [] \<and> suspended s' = []"
    by code_simp
  show ?thesis
    by (rule conjI[OF 1 conjI[OF 2 conjI[OF 3 conjI[OF 4 conjI[OF 5 6]]]]])
qed

theorem C7_approval_path_witness:
  "\<not> AUTO_SEND_ENABLED approvalConfig
   \<and> extractLatestMessage petsAnswered = Inr petsExtracted
   \<and> generateResponse petsAnswered = Inr ''Yes, we welcome well-behaved pets...''
   \<and> closeBrowser petsAnswered = None
   \<and> snd (processMessageResume approvalConfig (ticked1\<lparr>suspended := []\<rparr>) queued1 petsAnswered) = None
   \<and> filter isApproval (drop (length (effects (ticked1\<lparr>suspended := []\<rparr>)))
         (effects (fst (processMessageResume approvalConfig (ticked1\<lparr>suspended := []\<rparr>)
                          queued1 petsAnswered))))
       = [SendResponseForApproval (ex_tenantName petsExtracted) (ex_tenantMessage petsExtracted)
            ''Yes, we welcome well-behaved pets...'' (conversationUrl petsExtracted)]"
proof -
  have a: "\<not> AUTO_SEND_ENABLED approvalConfig"
    by (simp add: approvalConfig_def)
  have e: "extractLatestMessage petsAnswered = Inr petsExtracted"
    and g: "generateResponse petsAnswered = Inr ''Yes, we welcome well-behaved pets...''"
    and c: "closeBrowser petsAnswered = None"
    by (simp_all add: petsAnswered_def)
  from C7_approval_path[OF a e g c, of "ticked1\<lparr>suspended := []\<rparr>" queued1]
  have "snd (processMessageResume approvalConfig (ticked1\<lparr>suspended := []\<rparr>) queued1 petsAnswered) = None"
    and "filter isApproval (drop (length (effects (ticked1\<lparr>suspended := []\<rparr>)))
         (effects (fst (processMessageResume approvalConfig (ticked1\<lparr>suspended := []\<rparr>)
                          queued1 petsAnswered))))
       = [SendResponseForApproval (ex_tenantName petsExtracted) (ex_tenantMessage petsExtracted)
            ''Yes, we welcome well-behaved pets...'' (conversationUrl petsExtracted)]"
    by blast+
  with a e g c show ?thesis by blast
qed

text \<open>
  Without that condition the claim fails. \<^verbatim>\<open>closeBrowser\<close> is called inside the
  \<^verbatim>\<open>try\<close> block, after the approval notification: when it throws although the
  extraction and the generation succeeded, \<^verbatim>\<open>processMessage\<close> rejects, the status
  \<open>Pending\<close> is never written, \<^verbatim>\<open>messageProcessed\<close> is never called, the item stays in
  the queue with one failure counted and is handed over again, and the retry that
  succeeds sends a second approval notification.
\<close>

theorem C7_approval_path_counterexample:
  "\<not> AUTO_SEND_ENABLED approvalConfig
   \<and> extractLatestMessage closeThrows = Inr petsExtracted
   \<and> generateResponse closeThrows = Inr ''Yes, we welcome well-behaved pets...''
   \<and> snd (processMessageResume approvalConfig (ticked1\<lparr>suspended := []\<rparr>) queued1 closeThrows)
       = Some (Error ''browser.close: Target closed'')
   \<and> map status (rowsOf (db (sysRun approvalConfig (startSystem (Some emptyTable) 3)
         [Tick (Inr [mail1]), Resume 0 closeThrows]))) = [Processing]
   \<and> queue (messageQueue (sysRun approvalConfig (startSystem (Some emptyTable) 3)
         [Tick (Inr [mail1]), Resume 0 closeThrows])) = [queued1\<lparr>retryCount := 1\<rparr>]
   \<and> DbUpdateStatus ''m1'' Pending None \<notin> set (effects (sysRun approvalConfig
         (startSystem (Some emptyTable) 3) [Tick (Inr [mail1]), Resume 0 closeThrows]))
   \<and> QueueMessageProcessed ''m1'' \<notin> set (effects (sysRun approvalConfig
         (startSystem (Some emptyTable) 3) [Tick (Inr [mail1]), Resume 0 closeThrows]))
   \<and> length (filter isApproval (effects (sysRun approvalConfig (startSystem (Some emptyTable) 3)
         [Tick (Inr [mail1]), Resume 0 closeThrows, Resume 0 petsAnswered]))) = 2"
proof -
  have 1: "\<not> AUTO_SEND_ENABLED approvalConfig"
    by (simp add: approvalConfig_def)
  have 2: "extractLatestMessage closeThrows = Inr petsExtracted"
    and 3: "generateResponse closeThrows = Inr ''Yes, we welcome well-behaved pets...''"
    by (simp_all add: closeThrows_def)
  have 4: "snd (processMessageResume approvalConfig (ticked1\<lparr>suspended := []\<rparr>) queued1 closeThrows)
       = Some (Error ''browser.close: Target closed'')"
    by (simp add: resume_result closeThrows_def approvalConfig_def)
  have 5: "map status (rowsOf (db (sysRun approvalConfig (startSystem (Some emptyTable) 3)
         [Tick (Inr [mail1]), Resume 0 closeThrows]))) = [Processing]"
    by code_simp
  have 6: "queue (messageQueue (sysRun approvalConfig (startSystem (Some emptyTable) 3)
         [Tick (Inr [mail1]), Resume 0 closeThrows])) = [queued1\<lparr>retryCount := 1\<rparr>]"
    by code_simp
  have 7: "DbUpdateStatus ''m1'' Pending None \<notin> set (effects (sysRun approvalConfig
         (startSystem (Some emptyTable) 3) [Tick (Inr [mail1]), Resume 0 closeThrows]))"
    by code_simp
  have 8: "QueueMessageProcessed ''m1'' \<notin> set (effects (sysRun approvalConfig
         (startSystem (Some emptyTable) 3) [Tick (Inr [mail1]), Resume 0 closeThrows]))"
    by code_simp
  have 9: "length (filter isApproval (effects (sysRun approvalConfig (startSystem (Some emptyTable) 3)
         [Tick (Inr [mail1]), Resume 0 closeThrows, Resume 0 petsAnswered]))) = 2"
    by code_simp
  show ?thesis
    by (rule conjI[OF 1 conjI[OF 2 conjI[OF 3 conjI[OF 4 conjI[OF 5 conjI[OF 6
          conjI[OF 7 conjI[OF 8 9]]]]]]]])
qed

section \<open>What the pipeline writes after the extraction\<close>

text \<open>
  Claim C3, which the code does not meet. \<^verbatim>\<open>processMessage\<close> hands the extracted
  message to \<^verbatim>\<open>updateResponse\<close>, which writes the column \<^verbatim>\<open>our_response\<close>, and never
  writes the conversation URL: no invocation of \<^verbatim>\<open>processMessage\<close> changes the columns
  \<^verbatim>\<open>tenant_message\<close> and \<^verbatim>\<open>ff_conversation_url\<close> of any row. After a successful
  extraction for the inquiry \<^verbatim>\<open>m1\<close>, \<^verbatim>\<open>tenant_message\<close> is still the mail's subject
  and \<^verbatim>\<open>ff_conversation_url\<close> is still \<^verbatim>\<open>NULL\<close>; the extracted message is in
  \<^verbatim>\<open>our_response\<close> until the generated text overwrites it.
\<close>

theorem C3_extracted_message_not_persisted:
  "map (\<lambda>r. (gmail_message_id r, tenant_message r, ff_conversation_url r))
     (rowsOf (db (fst (processMessageResume cfg s m out)))) =
   map (\<lambda>r. (gmail_message_id r, tenant_message r, ff_conversation_url r)) (rowsOf (db s))
   \<and> (let s' = sysRun approvalConfig (startSystem (Some emptyTable) 3)
                  [Tick (Inr [mail1]), Resume 0 petsAnswered]
      in extractLatestMessage petsAnswered = Inr petsExtracted
         \<and> map tenant_message (rowsOf (db s')) = [''Booking Inquiry from Nancy E'']
         \<and> map ff_conversation_url (rowsOf (db s')) = [None]
         \<and> map our_response (rowsOf (db s')) = [Some ''Yes, we welcome well-behaved pets...''])
   \<and> (let s' = sysRun approvalConfig (startSystem (Some emptyTable) 3)
                  [Tick (Inr [mail1]), Resume 0 llmDown]
      in extractLatestMessage llmDown = Inr petsExtracted
         \<and> map tenant_message (rowsOf (db s')) = [''Booking Inquiry from Nancy E'']
         \<and> map ff_conversation_url (rowsOf (db s')) = [None]
         \<and> map our_response (rowsOf (db s')) = [Some ''Hi, is the place pet friendly?''])"
proof -
  have 2: "let s' = sysRun approvalConfig (startSystem (Some emptyTable) 3)
                  [Tick (Inr [mail1]), Resume 0 petsAnswered]
      in extractLatestMessage petsAnswered = Inr petsExtracted
         \<and> map tenant_message (rowsOf (db s')) = [''Booking Inquiry from Nancy E'']
         \<and> map ff_conversation_url (rowsOf (db s')) = [None]
         \<and> map our_response (rowsOf (db s')) = [Some ''Yes, we welcome well-behaved pets...'']"
    by code_simp
  have 3: "let s' = sysRun approvalConfig (startSystem (Some emptyTable) 3)
                  [Tick (Inr [mail1]), Resume 0 llmDown]
      in extractLatestMessage llmDown = Inr petsExtracted
         \<and> map tenant_message (rowsOf (db s')) = [''Booking Inquiry from Nancy E'']
         \<and> map ff_conversation_url (rowsOf (db s')) = [None]
         \<and> map our_response (rowsOf (db s')) = [Some ''Hi, is the place pet friendly?'']"
    by code_simp
  show ?thesis
    by (rule conjI[OF kept_processMessageResume conjI[OF 2 3]])
qed

section \<open>One record per identifier\<close>

text \<open>
  Claim C8. Starting from a table whose identifiers are distinct (the empty table, or
  one kept under the \<^verbatim>\<open>UNIQUE\<close> constraint), after any sequence of \<^verbatim>\<open>insertMessage\<close>
  calls the identifiers are distinct and every identifier of the sequence has exactly one
  row; an \<^verbatim>\<open>insertMessage\<close> with an identifier that exists throws and leaves the store
  as it was; and later calls leave the rows that exist in place, unchanged.
\<close>

theorem C8_store_unique:
  assumes "distinct (map gmail_message_id (rows t))"
  shows "distinct (map gmail_message_id (rowsOf (insertAll (Some t) msgs)))
    \<and> (\<forall>msg\<in>set msgs.
          length (filter (\<lambda>r. gmail_message_id r = gmail_message_id msg)
                    (rowsOf (insertAll (Some t) msgs))) = 1)
    \<and> (\<forall>msg. messageExists (insertAll (Some t) msgs) (gmail_message_id msg) \<longrightarrow>
          insertMessage (insertAll (Some t) msgs) msg =
            Inl (Error ''UNIQUE constraint failed: messages.gmail_message_id'')
          \<and> insertAll (insertAll (Some t) msgs) [msg] = insertAll (Some t) msgs)
    \<and> (\<forall>more. \<exists>new. rowsOf (insertAll (Some t) (msgs @ more)) =
          rowsOf (insertAll (Some t) msgs) @ new)"
proof -
  from insertAll_distinct[OF assms, of msgs]
  have d: "distinct (map gmail_message_id (rowsOf (insertAll (Some t) msgs)))"
    and ids: "gmail_message_id ` set (rowsOf (insertAll (Some t) msgs)) =
      gmail_message_id ` set (rows t) \<union> gmail_message_id ` set msgs"
    by simp_all
  have 2: "\<forall>msg\<in>set msgs.
          length (filter (\<lambda>r. gmail_message_id r = gmail_message_id msg)
                    (rowsOf (insertAll (Some t) msgs))) = 1"
  proof
    fix msg
    assume "msg \<in> set msgs"
    with ids obtain r where r: "r \<in> set (rowsOf (insertAll (Some t) msgs))"
      "gmail_message_id r = gmail_message_id msg"
      by (metis (no_types, lifting) UnI2 image_iff)
    from distinct_filter_one[OF d r(1)] r(2)
    show "length (filter (\<lambda>r. gmail_message_id r = gmail_message_id msg)
                    (rowsOf (insertAll (Some t) msgs))) = 1"
      by simp
  qed
  have 3: "\<forall>msg. messageExists (insertAll (Some t) msgs) (gmail_message_id msg) \<longrightarrow>
          insertMessage (insertAll (Some t) msgs) msg =
            Inl (Error ''UNIQUE constraint failed: messages.gmail_message_id'')
          \<and> insertAll (insertAll (Some t) msgs) [msg] = insertAll (Some t) msgs"
    by (simp add: insertMessage_duplicate)
  have 4: "\<forall>more. \<exists>new. rowsOf (insertAll (Some t) (msgs @ more)) =
          rowsOf (insertAll (Some t) msgs) @ new"
  proof
    fix more
    from insertAll_Some[of t msgs] obtain t' where t': "insertAll (Some t) msgs = Some t'"
      by blast
    from insertAll_prefix[of t' more] show "\<exists>new. rowsOf (insertAll (Some t) (msgs @ more)) =
          rowsOf (insertAll (Some t) msgs) @ new"
      by (simp add: insertAll_append t' rowsOf_def)
  qed
  show ?thesis
    by (rule conjI[OF d conjI[OF 2 conjI[OF 3 4]]])
qed

theorem C8_store_unique_witness:
  "distinct (map gmail_message_id (rows emptyTable))
   \<and> rowsOf (insertAll (Some emptyTable) [inquiry1, inquiry1\<lparr>tenant_name := ''Somebody Else''\<rparr>])
       = [inquiry1\<lparr>row_id := 1\<rparr>]
   \<and> distinct (map gmail_message_id
        (rowsOf (insertAll (Some emptyTable) [inquiry1, inquiry1\<lparr>tenant_name := ''Somebody Else''\<rparr>])))"
proof -
  have h: "distinct (map gmail_message_id (rows emptyTable))"
    by (simp add: emptyTable_def)
  have e: "rowsOf (insertAll (Some emptyTable) [inquiry1, inquiry1\<lparr>tenant_name := ''Somebody Else''\<rparr>])
       = [inquiry1\<lparr>row_id := 1\<rparr>]"
    by code_simp
  from C8_store_unique[OF h, of "[inquiry1, inquiry1\<lparr>tenant_name := ''Somebody Else''\<rparr>]"]
  have "distinct (map gmail_message_id
        (rowsOf (insertAll (Some emptyTable) [inquiry1, inquiry1\<lparr>tenant_name := ''Somebody Else''\<rparr>])))"
    by (rule conjunct1)
  with h e show ?thesis by blast
qed

section \<open>The barrier against duplicates\<close>

text \<open>
  Claim C2. The body of the poller's loop does nothing for a message whose identifier
  exists in the store or is present in the queue. Over a whole tick, for every identifier
  that exists in the store or is in the queue when the tick starts, whatever the listing
  and the state, the tick calls neither \<^verbatim>\<open>insertMessage\<close> nor \<^verbatim>\<open>enqueue\<close> for it, the
  number of its rows is unchanged, and so are its entries in the queue.
\<close>

theorem C2_dedup_barrier:
  "(messageExists (db s) (gm_id g) \<or> isInQueue (messageQueue s) (gm_id g)
      \<longrightarrow> pollMessage cfg s g = (s, None))
   \<and> (\<forall>i. messageExists (db s) i \<or> isInQueue (messageQueue s) i \<longrightarrow>
         DbInsertMessage i \<notin> set (drop (length (effects s)) (effects (checkGmail cfg s listing)))
         \<and> QueueEnqueue i \<notin> set (drop (length (effects s)) (effects (checkGmail cfg s listing)))
         \<and> length (filter (\<lambda>r. gmail_message_id r = i) (rowsOf (db (checkGmail cfg s listing)))) =
             length (filter (\<lambda>r. gmail_message_id r = i) (rowsOf (db s)))
         \<and> filter (\<lambda>m. gmailMessageId m = i) (queue (messageQueue (checkGmail cfg s listing))) =
             filter (\<lambda>m. gmailMessageId m = i) (queue (messageQueue s)))"
proof -
  have 1: "messageExists (db s) (gm_id g) \<or> isInQueue (messageQueue s) (gm_id g)
      \<longrightarrow> pollMessage cfg s g = (s, None)"
    by (auto simp: pollMessage_def Let_def)
  from checkGmail_leavesKnown[of s cfg listing] obtain new where
    e: "effects (checkGmail cfg s listing) = effects s @ new"
    and n: "\<forall>i. known s i \<longrightarrow> DbInsertMessage i \<notin> set new \<and> QueueEnqueue i \<notin> set new"
    and k: "\<forall>i. known s i \<longrightarrow>
            length (filter (\<lambda>r. gmail_message_id r = i) (rowsOf (db (checkGmail cfg s listing)))) =
            length (filter (\<lambda>r. gmail_message_id r = i) (rowsOf (db s)))
            \<and> filter (\<lambda>m. gmailMessageId m = i) (queue (messageQueue (checkGmail cfg s listing))) =
              filter (\<lambda>m. gmailMessageId m = i) (queue (messageQueue s))"
    unfolding leavesKnown_def by blast
  have 2: "\<forall>i. messageExists (db s) i \<or> isInQueue (messageQueue s) i \<longrightarrow>
         DbInsertMessage i \<notin> set (drop (length (effects s)) (effects (checkGmail cfg s listing)))
         \<and> QueueEnqueue i \<notin> set (drop (length (effects s)) (effects (checkGmail cfg s listing)))
         \<and> length (filter (\<lambda>r. gmail_message_id r = i) (rowsOf (db (checkGmail cfg s listing)))) =
             length (filter (\<lambda>r. gmail_message_id r = i) (rowsOf (db s)))
         \<and> filter (\<lambda>m. gmailMessageId m = i) (queue (messageQueue (checkGmail cfg s listing))) =
             filter (\<lambda>m. gmailMessageId m = i) (queue (messageQueue s))"
    using n k by (simp add: e known_def)
  show ?thesis
    by (rule conjI[OF 1 2])
qed

theorem C2_dedup_barrier_witness:
  "messageExists (db ticked1) (gm_id mail1)
   \<and> isInQueue (messageQueue ticked1) (gm_id mail1)
   \<and> pollMessage approvalConfig ticked1 mail1 = (ticked1, None)
   \<and> checkGmail approvalConfig ticked1 (Inr [mail1]) = ticked1"
proof -
  have a: "messageExists (db ticked1) (gm_id mail1)"
    and b: "isInQueue (messageQueue ticked1) (gm_id mail1)"
    by code_simp+
  from C2_dedup_barrier[of ticked1 mail1 approvalConfig] a
  have c: "pollMessage approvalConfig ticked1 mail1 = (ticked1, None)"
    by blast
  then have "checkGmail approvalConfig ticked1 (Inr [mail1]) = ticked1"
    by (simp add: checkGmail_def)
  with a b c show ?thesis by blast
qed

section \<open>The changes of status are closed\<close>

text \<open>
  Claim C4. Start the process on any store, with an empty queue, and let it run through
  any sequence of poller ticks and completions of the suspended \<^verbatim>\<open>processMessage\<close>,
  whatever the mail source and the collaborators answer. Then every change of status that
  \<^verbatim>\<open>updateStatus\<close> writes to a row is one of pending to processing, processing to sent,
  processing to pending, processing to failed, failed to processing.
\<close>

theorem C4_status_transitions:
  "\<forall>t\<in>set (transitions (sysRun cfg (startSystem d n) steps)). allowedTransition (snd t)"
proof -
  from sysRun_inv[OF startSystem_inv, of cfg d n steps]
  have "extends (startSystem d n) (sysRun cfg (startSystem d n) steps)" by simp
  then show ?thesis
    by (auto simp: extends_def startSystem_def)
qed

theorem C4_status_transitions_witness:
  "transitions (sysRun approvalConfig (startSystem (Some emptyTable) 3)
      [Tick (Inr [mail1]), Resume 0 llmDown, Resume 0 petsAnswered])
     = [(''m1'', Pending, Processing), (''m1'', Processing, Failed),
        (''m1'', Failed, Processing), (''m1'', Processing, Pending)]
   \<and> allowedTransition (snd (''m1'', Processing, Failed))"
proof -
  have r: "transitions (sysRun approvalConfig (startSystem (Some emptyTable) 3)
      [Tick (Inr [mail1]), Resume 0 llmDown, Resume 0 petsAnswered])
     = [(''m1'', Pending, Processing), (''m1'', Processing, Failed),
        (''m1'', Failed, Processing), (''m1'', Processing, Pending)]"
    by code_simp
  have "(''m1'', Processing, Failed) \<in> set (transitions (sysRun approvalConfig
      (startSystem (Some emptyTable) 3)
      [Tick (Inr [mail1]), Resume 0 llmDown, Resume 0 petsAnswered]))"
    unfolding r by simp
  with C4_status_transitions[of approvalConfig "Some emptyTable" 3
      "[Tick (Inr [mail1]), Resume 0 llmDown, Resume 0 petsAnswered]"]
  have "allowedTransition (snd (''m1'', Processing, Failed))"
    by (rule bspec)
  with r show ?thesis
    by (rule conjI)
qed

end
